theory Spec2Isabelle
  imports Complex_Main "HOL-Library.Multiset"
begin

section \<open>The order book of \<open>orderbook/orderbook.go\<close>\<close>

text \<open>
  The Go package keeps orders and price levels behind pointers: one \<open>*Order\<close> is shared
  by its price level, by the id index of the book and by the caller, and one \<open>*Limit\<close> is
  shared by the side's slice and the side's price map. The embedding makes this sharing
  explicit with a store: a pointer is an address (a natural number), and the state holds
  the order objects and the limit objects by address, next to the single \<open>Orderbook\<close>.

  Modelling decisions:
  \<^item> A \<open>float64\<close> quantity or price is a real number; NaN and the infinities are left
    out. The functions that compute with sizes are given in two arithmetics. Those named as
    in the source read \<open>+=\<close> and \<open>-=\<close> as the exact operations on the reals: this is what
    the code computes as long as no sum and no difference has to be rounded. Those with the
    suffix \<open>64\<close> are the same statements with every sum and difference rounded to the
    nearest binary64 number, ties to even (\<open>round64\<close>), as the processor does it: this is
    what the code computes on all finite sizes. What is said about sums of sizes is settled
    on the functions with the suffix \<open>64\<close>.
  \<^item> \<open>int64\<close> identifiers and timestamps are integers; no arithmetic is done on them.
  \<^item> A Go panic ends the call. The outcome of a call that may panic is either
    \<open>Return\<close> with the final state and the result, or \<open>Panic\<close> with the state at the
    point of the panic and the value of the panic.
  \<^item> \<open>sort.Sort\<close> belongs to Go's standard library, it is not stable, and its algorithm
    depends on the Go release. It is a parameter \<open>srt\<close> of every function that sorts;
    general theorems assume only its contract (\<open>sort_contract\<close>).
  \<^item> The mutex and the log output are left out; \<open>time.Now\<close> and \<open>rand.Intn\<close> are inputs.
\<close>

subsection \<open>Data model\<close>

type_synonym order_ref = nat
type_synonym limit_ref = nat

record Trade =
  Price :: real
  Size :: real
  Bid :: bool
  Timestamp :: int

record Match =
  Ask :: order_ref
  Bid :: order_ref
  SizeFilled :: real
  Price :: real

record Order =
  ID :: int
  UserID :: int
  Size :: real
  Bid :: bool
  Limit :: "limit_ref option"
  Timestamp :: int

record Limit =
  Price :: real
  Orders :: "order_ref list"
  TotalVolume :: real

record Orderbook =
  asks :: "limit_ref list"
  bids :: "limit_ref list"
  Trades :: "Trade list"
  AskLimits :: "real \<rightharpoonup> limit_ref"
  BidLimits :: "real \<rightharpoonup> limit_ref"
  Orders :: "int \<rightharpoonup> order_ref"

text \<open>The store: the objects behind \<open>*Order\<close> and \<open>*Limit\<close>, the book, and the next
  address that \<open>NewOrder\<close> and \<open>NewLimit\<close> allocate at.\<close>

record state =
  orders :: "order_ref \<Rightarrow> Order"
  limits :: "limit_ref \<Rightarrow> Limit"
  ob :: Orderbook
  next_order :: order_ref
  next_limit :: limit_ref

datatype panic = NotEnoughVolume real real | IndexOutOfRange | NilPointerDereference

datatype 'a outcome = Return state 'a | Panic state panic

fun state_of :: "'a outcome \<Rightarrow> state" where
  "state_of (Return s r) = s"
| "state_of (Panic s p) = s"


type_synonym sorter = "(nat \<Rightarrow> nat \<Rightarrow> bool) \<Rightarrow> nat list \<Rightarrow> nat list"

text \<open>The contract of \<open>sort.Sort\<close> for a \<open>Less\<close> that compares a key: the slice is
  permuted and ends up ascending in the key. A descending \<open>Less\<close> is the case of the
  negated key.\<close>

definition sort_contract :: "sorter \<Rightarrow> bool" where
  "sort_contract srt \<longleftrightarrow>
     (\<forall>(key :: nat \<Rightarrow> real) xs.
        mset (srt (\<lambda>i j. key i < key j) xs) = mset xs
        \<and> sorted (map key (srt (\<lambda>i j. key i < key j) xs)))"

text \<open>Insertion sort, an instance of the contract, evaluates the concrete runs below.\<close>

fun insert_by :: "('a \<Rightarrow> 'a \<Rightarrow> bool) \<Rightarrow> 'a \<Rightarrow> 'a list \<Rightarrow> 'a list" where
  "insert_by lt x [] = [x]"
| "insert_by lt x (y # ys) = (if lt x y then x # y # ys else y # insert_by lt x ys)"

definition insertion_sort :: "('a \<Rightarrow> 'a \<Rightarrow> bool) \<Rightarrow> 'a list \<Rightarrow> 'a list" where
  "insertion_sort lt xs = foldl (\<lambda>acc x. insert_by lt x acc) [] xs"

subsection \<open>Store updates\<close>

definition upd_order :: "order_ref \<Rightarrow> (Order \<Rightarrow> Order) \<Rightarrow> state \<Rightarrow> state" where
  "upd_order r f s = s\<lparr>orders := (orders s)(r := f (orders s r))\<rparr>"

definition upd_limit :: "limit_ref \<Rightarrow> (Limit \<Rightarrow> Limit) \<Rightarrow> state \<Rightarrow> state" where
  "upd_limit r f s = s\<lparr>limits := (limits s)(r := f (limits s r))\<rparr>"

definition upd_ob :: "(Orderbook \<Rightarrow> Orderbook) \<Rightarrow> state \<Rightarrow> state" where
  "upd_ob f s = s\<lparr>ob := f (ob s)\<rparr>"

subsection \<open>Order and Limit\<close>

text \<open>\<open>NewOrder\<close>: \<open>rnd\<close> is the value of \<open>rand.Intn(10000000)\<close>, \<open>now\<close> of
  \<open>time.Now().UnixNano()\<close>.\<close>

definition NewOrder :: "bool \<Rightarrow> real \<Rightarrow> int \<Rightarrow> int \<Rightarrow> int \<Rightarrow> state \<Rightarrow> state \<times> order_ref" where
  "NewOrder bid sz userID rnd now s =
     (s\<lparr>orders := (orders s)(next_order s :=
           \<lparr>Order.ID = rnd, Order.UserID = userID, Order.Size = sz, Order.Bid = bid,
             Order.Limit = None, Order.Timestamp = now\<rparr>),
        next_order := Suc (next_order s)\<rparr>,
      next_order s)"

definition IsFilled :: "Order \<Rightarrow> bool" where
  "IsFilled x \<longleftrightarrow> Order.Size x = 0"

definition NewLimit :: "real \<Rightarrow> state \<Rightarrow> state \<times> limit_ref" where
  "NewLimit price s =
     (s\<lparr>limits := (limits s)(next_limit s := \<lparr>Limit.Price = price, Limit.Orders = [], Limit.TotalVolume = 0\<rparr>),
        next_limit := Suc (next_limit s)\<rparr>,
      next_limit s)"

definition AddOrder :: "limit_ref \<Rightarrow> order_ref \<Rightarrow> state \<Rightarrow> state" where
  "AddOrder l x s =
     (let s1 = upd_order x (\<lambda>v. v\<lparr>Limit := Some l\<rparr>) s;
          s2 = upd_limit l (\<lambda>v. v\<lparr>Limit.Orders := Limit.Orders v @ [x]\<rparr>) s1
      in upd_limit l (\<lambda>v. v\<lparr>TotalVolume := TotalVolume v + Order.Size (orders s2 x)\<rparr>) s2)"

text \<open>The removal loop shared by \<open>DeleteOrder\<close> and \<open>clearLimit\<close>:
  \<^verbatim>\<open>for i := 0; i < len(xs); i++ { if xs[i] == x { xs[i] = xs[len(xs)-1]; xs = xs[:len(xs)-1] } }\<close>
  on the backing array \<open>arr\<close> and the current length \<open>n\<close> of the slice. The loop has no
  \<open>break\<close>, and shrinking the slice leaves the array cell behind it as it was.\<close>

function remove_loop :: "nat \<Rightarrow> 'a \<Rightarrow> 'a list \<Rightarrow> nat \<Rightarrow> 'a list \<times> nat" where
  "remove_loop i x arr n =
     (if i < n then
        (if arr ! i = x then remove_loop (i + 1) x (arr[i := arr ! (n - 1)]) (n - 1)
         else remove_loop (i + 1) x arr n)
      else (arr, n))"
  by pat_completeness auto
termination
  by (relation "measure (\<lambda>(i, x, arr, n). n - i)") auto

declare remove_loop.simps [simp del]

definition remove_swap :: "'a \<Rightarrow> 'a list \<Rightarrow> 'a list" where
  "remove_swap x xs = (case remove_loop 0 x xs (length xs) of (arr, n) \<Rightarrow> take n arr)"

definition DeleteOrder :: "sorter \<Rightarrow> limit_ref \<Rightarrow> order_ref \<Rightarrow> state \<Rightarrow> state" where
  "DeleteOrder srt l x s =
     (let s1 = upd_limit l (\<lambda>v. v\<lparr>Limit.Orders := remove_swap x (Limit.Orders v)\<rparr>) s;
          s2 = upd_order x (\<lambda>v. v\<lparr>Limit := None\<rparr>) s1;
          s3 = upd_limit l (\<lambda>v. v\<lparr>TotalVolume := TotalVolume v - Order.Size (orders s2 x)\<rparr>) s2
      in upd_limit l (\<lambda>v. v\<lparr>Limit.Orders :=
            srt (\<lambda>i j. Order.Timestamp (orders s3 i) < Order.Timestamp (orders s3 j))
                (Limit.Orders v)\<rparr>) s3)"

text \<open>\<open>fillOrder\<close>: \<open>a\<close> is the resident order, \<open>b\<close> the incoming one. The assignments
  are applied to the store one after the other, as the Go statements are.\<close>

definition fillOrder :: "limit_ref \<Rightarrow> order_ref \<Rightarrow> order_ref \<Rightarrow> state \<Rightarrow> state \<times> Match" where
  "fillOrder l a b s =
     (let (bid, ask) = (if Order.Bid (orders s a) then (a, b) else (b, a)) in
      if Order.Size (orders s a) \<ge> Order.Size (orders s b) then
        (let s1 = upd_order a (\<lambda>v. v\<lparr>Order.Size := Order.Size v - Order.Size (orders s b)\<rparr>) s;
             sizeFilled = Order.Size (orders s1 b);
             s2 = upd_order b (\<lambda>v. v\<lparr>Order.Size := 0\<rparr>) s1
         in (s2, \<lparr>Match.Ask = ask, Match.Bid = bid, Match.SizeFilled = sizeFilled,
                   Match.Price = Limit.Price (limits s2 l)\<rparr>))
      else
        (let s1 = upd_order b (\<lambda>v. v\<lparr>Order.Size := Order.Size v - Order.Size (orders s a)\<rparr>) s;
             sizeFilled = Order.Size (orders s1 a);
             s2 = upd_order a (\<lambda>v. v\<lparr>Order.Size := 0\<rparr>) s1
         in (s2, \<lparr>Match.Ask = ask, Match.Bid = bid, Match.SizeFilled = sizeFilled,
                   Match.Price = Limit.Price (limits s2 l)\<rparr>)))"

text \<open>The first loop of \<open>Fill\<close>, over the residents \<open>l.Orders\<close> as they are when the loop
  starts; the accumulator holds the state, \<open>matches\<close> and \<open>ordersToDelete\<close>.\<close>

fun Fill_loop :: "limit_ref \<Rightarrow> order_ref \<Rightarrow> order_ref list
    \<Rightarrow> state \<times> Match list \<times> order_ref list \<Rightarrow> state \<times> Match list \<times> order_ref list" where
  "Fill_loop l x [] acc = acc"
| "Fill_loop l x (order # rest) (s, matches, ordersToDelete) =
     (if IsFilled (orders s x) then (s, matches, ordersToDelete)
      else
        (let (s1, match) = fillOrder l order x s;
             s2 = upd_limit l (\<lambda>v. v\<lparr>TotalVolume := TotalVolume v - SizeFilled match\<rparr>) s1
         in Fill_loop l x rest
              (s2, matches @ [match],
               if IsFilled (orders s2 order) then ordersToDelete @ [order] else ordersToDelete)))"

definition Fill :: "sorter \<Rightarrow> limit_ref \<Rightarrow> order_ref \<Rightarrow> state \<Rightarrow> state \<times> Match list" where
  "Fill srt l x s =
     (case Fill_loop l x (Limit.Orders (limits s l)) (s, [], []) of
        (s1, matches, ordersToDelete) \<Rightarrow>
          (foldl (\<lambda>s' order. DeleteOrder srt l order s') s1 ordersToDelete, matches))"

subsection \<open>Orderbook\<close>

definition NewOrderbook :: state where
  "NewOrderbook =
     \<lparr>orders = (\<lambda>_. \<lparr>Order.ID = 0, Order.UserID = 0, Order.Size = 0, Order.Bid = False,
                      Order.Limit = None, Order.Timestamp = 0\<rparr>),
      limits = (\<lambda>_. \<lparr>Limit.Price = 0, Limit.Orders = [], Limit.TotalVolume = 0\<rparr>),
      ob = \<lparr>asks = [], bids = [], Trades = [],
            AskLimits = Map.empty, BidLimits = Map.empty, Orderbook.Orders = Map.empty\<rparr>,
      next_order = 0, next_limit = 0\<rparr>"

definition BidTotalVolume :: "state \<Rightarrow> real" where
  "BidTotalVolume s = foldl (\<lambda>totalVolume l. totalVolume + TotalVolume (limits s l)) 0 (bids (ob s))"

definition AskTotalVolume :: "state \<Rightarrow> real" where
  "AskTotalVolume s = foldl (\<lambda>totalVolume l. totalVolume + TotalVolume (limits s l)) 0 (asks (ob s))"

text \<open>\<open>Asks\<close> and \<open>Bids\<close> sort the side's slice in place and return it.\<close>

definition Asks :: "sorter \<Rightarrow> state \<Rightarrow> state \<times> limit_ref list" where
  "Asks srt s =
     (let sorted_asks = srt (\<lambda>i j. Limit.Price (limits s i) < Limit.Price (limits s j)) (asks (ob s))
      in (upd_ob (\<lambda>b. b\<lparr>asks := sorted_asks\<rparr>) s, sorted_asks))"

definition Bids :: "sorter \<Rightarrow> state \<Rightarrow> state \<times> limit_ref list" where
  "Bids srt s =
     (let sorted_bids = srt (\<lambda>i j. Limit.Price (limits s i) > Limit.Price (limits s j)) (bids (ob s))
      in (upd_ob (\<lambda>b. b\<lparr>bids := sorted_bids\<rparr>) s, sorted_bids))"

text \<open>\<open>clearLimit\<close> on the backing array \<open>arr\<close> of the side's slice (whose current length
  is the length of the list in the book): it returns the array after the loop, too, because
  the \<open>range\<close> loop of \<open>PlaceMarketOrder\<close> goes on reading that array.\<close>

definition clearLimit_arr :: "bool \<Rightarrow> limit_ref \<Rightarrow> limit_ref list \<Rightarrow> state \<Rightarrow> limit_ref list \<times> state" where
  "clearLimit_arr bid l arr s =
     (if bid then
        (let s1 = upd_ob (\<lambda>b. b\<lparr>BidLimits := (BidLimits b)(Limit.Price (limits s l) := None)\<rparr>) s in
         case remove_loop 0 l arr (length (bids (ob s1))) of
           (arr', n) \<Rightarrow> (arr', upd_ob (\<lambda>b. b\<lparr>bids := take n arr'\<rparr>) s1))
      else
        (let s1 = upd_ob (\<lambda>b. b\<lparr>AskLimits := (AskLimits b)(Limit.Price (limits s l) := None)\<rparr>) s in
         case remove_loop 0 l arr (length (asks (ob s1))) of
           (arr', n) \<Rightarrow> (arr', upd_ob (\<lambda>b. b\<lparr>asks := take n arr'\<rparr>) s1)))"

definition clearLimit :: "bool \<Rightarrow> limit_ref \<Rightarrow> state \<Rightarrow> state" where
  "clearLimit bid l s = snd (clearLimit_arr bid l (if bid then bids (ob s) else asks (ob s)) s)"

text \<open>The sweep of \<open>PlaceMarketOrder\<close>: \<open>for _, limit := range ob.Asks()\<close> runs once for
  each index below the length the slice had when the loop started (\<open>k\<close> counts the
  iterations left), and reads cell \<open>i\<close> of the backing array at iteration \<open>i\<close>.
  \<open>bid\<close> is the side being swept.\<close>

fun sweep :: "sorter \<Rightarrow> bool \<Rightarrow> order_ref \<Rightarrow> nat \<Rightarrow> nat \<Rightarrow> limit_ref list
    \<Rightarrow> state \<times> Match list \<Rightarrow> state \<times> Match list" where
  "sweep srt bid x 0 i arr acc = acc"
| "sweep srt bid x (Suc k) i arr (s, matches) =
     (let limit = arr ! i;
          (s1, limitMatches) = Fill srt limit x s;
          (arr', s2) = (if Limit.Orders (limits s1 limit) = [] then clearLimit_arr bid limit arr s1
                        else (arr, s1))
      in sweep srt bid x k (i + 1) arr' (s2, matches @ limitMatches))"

text \<open>The end of \<open>PlaceMarketOrder\<close>: one trade for each match (\<open>now k\<close> is the clock
  read for the \<open>k\<close>-th match), then the log line, whose field
  \<open>ob.Trades[len(ob.Trades)-1].Price\<close> is evaluated before anything is logged.\<close>

fun record_trades :: "(nat \<Rightarrow> int) \<Rightarrow> bool \<Rightarrow> nat \<Rightarrow> Match list \<Rightarrow> state \<Rightarrow> state" where
  "record_trades now bid k [] s = s"
| "record_trades now bid k (match # rest) s =
     record_trades now bid (Suc k) rest
       (upd_ob (\<lambda>b. b\<lparr>Trades := Trades b @
          [\<lparr>Trade.Price = Match.Price match, Trade.Size = SizeFilled match,
            Trade.Bid = bid, Trade.Timestamp = now k\<rparr>]\<rparr>) s)"

definition finish_market :: "(nat \<Rightarrow> int) \<Rightarrow> order_ref \<Rightarrow> state \<times> Match list \<Rightarrow> Match list outcome" where
  "finish_market now x acc =
     (case acc of (s2, matches) \<Rightarrow>
        (let s3 = record_trades now (Order.Bid (orders s2 x)) 0 matches s2
         in if Trades (ob s3) = [] then Panic s3 IndexOutOfRange
            else Return s3 matches))"

definition PlaceMarketOrder :: "sorter \<Rightarrow> (nat \<Rightarrow> int) \<Rightarrow> order_ref \<Rightarrow> state \<Rightarrow> Match list outcome" where
  "PlaceMarketOrder srt now x s =
     (if Order.Bid (orders s x) then
        (if Order.Size (orders s x) > AskTotalVolume s then
           Panic s (NotEnoughVolume (AskTotalVolume s) (Order.Size (orders s x)))
         else
           (case Asks srt s of (s1, arr) \<Rightarrow>
              finish_market now x (sweep srt False x (length arr) 0 arr (s1, []))))
      else
        (if Order.Size (orders s x) > BidTotalVolume s then
           Panic s (NotEnoughVolume (BidTotalVolume s) (Order.Size (orders s x)))
         else
           (case Bids srt s of (s1, arr) \<Rightarrow>
              finish_market now x (sweep srt True x (length arr) 0 arr (s1, [])))))"

definition PlaceLimitOrder :: "real \<Rightarrow> order_ref \<Rightarrow> state \<Rightarrow> state" where
  "PlaceLimitOrder price x s =
     (let limit = (if Order.Bid (orders s x) then BidLimits (ob s) price else AskLimits (ob s) price);
          (s1, l) = (case limit of
             Some l \<Rightarrow> (s, l)
           | None \<Rightarrow>
               (let (s', l) = NewLimit price s in
                if Order.Bid (orders s' x) then
                  (upd_ob (\<lambda>b. b\<lparr>bids := bids b @ [l], BidLimits := (BidLimits b)(price \<mapsto> l)\<rparr>) s', l)
                else
                  (upd_ob (\<lambda>b. b\<lparr>asks := asks b @ [l], AskLimits := (AskLimits b)(price \<mapsto> l)\<rparr>) s', l)));
          s2 = upd_ob (\<lambda>b. b\<lparr>Orderbook.Orders := (Orderbook.Orders b)(Order.ID (orders s1 x) \<mapsto> x)\<rparr>) s1
      in AddOrder l x s2)"

text \<open>\<open>CancelOrder\<close>: with \<open>o.Limit == nil\<close> the call \<open>limit.DeleteOrder(o)\<close> dereferences
  the nil receiver in its first statement (\<open>len(l.Orders)\<close>), before any assignment.\<close>

definition CancelOrder :: "sorter \<Rightarrow> order_ref \<Rightarrow> state \<Rightarrow> unit outcome" where
  "CancelOrder srt x s =
     (case Order.Limit (orders s x) of
        None \<Rightarrow> Panic s NilPointerDereference
      | Some limit \<Rightarrow>
          (let s1 = DeleteOrder srt limit x s;
               s2 = upd_ob (\<lambda>b. b\<lparr>Orderbook.Orders := (Orderbook.Orders b)(Order.ID (orders s1 x) := None)\<rparr>) s1
           in Return (if Limit.Orders (limits s2 limit) = []
                      then clearLimit (Order.Bid (orders s2 x)) limit s2 else s2) ()))"

subsection \<open>Runs\<close>

text \<open>A caller builds an order with \<open>NewOrder\<close> and hands it to the book once, as the
  tests of the package do; \<open>CancelOrder\<close> takes any order pointer. A run goes on after a
  panic from the state the panic left (a recovered panic); a run without panics is the
  special case.\<close>

datatype op =
    LimitOp real bool real int int int
  | MarketOp bool real int int int "nat \<Rightarrow> int"
  | CancelOp order_ref

fun step :: "sorter \<Rightarrow> state \<Rightarrow> op \<Rightarrow> state" where
  "step srt s (LimitOp price bid sz userID rnd now) =
     (case NewOrder bid sz userID rnd now s of (s1, x) \<Rightarrow> PlaceLimitOrder price x s1)"
| "step srt s (MarketOp bid sz userID rnd now clock) =
     (case NewOrder bid sz userID rnd now s of (s1, x) \<Rightarrow> state_of (PlaceMarketOrder srt clock x s1))"
| "step srt s (CancelOp x) = state_of (CancelOrder srt x s)"

definition run :: "sorter \<Rightarrow> op list \<Rightarrow> state" where
  "run srt ops = foldl (step srt) NewOrderbook ops"

subsection \<open>Concrete books\<close>


text \<open>One ask of size 4 resting at 10000 (order 0, level 0).\<close>

definition one_ask :: state where
  "one_ask = run insertion_sort [LimitOp 10000 False 4 0 1 1]"

text \<open>\<open>one_ask\<close> and a fresh market bid of size 10 (order 1).\<close>

definition one_ask_bid10 :: state where
  "one_ask_bid10 = fst (NewOrder True 10 0 2 2 one_ask)"

text \<open>\<open>one_ask\<close> and a fresh ask of size 3 (order 1) that was never placed.\<close>

definition one_ask_stranger :: state where
  "one_ask_stranger = fst (NewOrder False 3 0 2 2 one_ask)"

text \<open>A new book and a fresh market ask of size 0 (order 0).\<close>

definition zero_market :: state where
  "zero_market = fst (NewOrder False 0 0 1 1 NewOrderbook)"

text \<open>An ask of size 10 at 10000 (order 0, identifier 1), filled by a market bid of size 10.\<close>

definition filled_book :: state where
  "filled_book = run insertion_sort [LimitOp 10000 False 10 0 1 1, MarketOp True 10 0 2 2 (\<lambda>_. 3)]"

text \<open>The book of the test \<open>TestPlaceMarketOrderMultiFill\<close>: bids of size 1 and 1 at
  5000 (orders 0 and 1, level 0), of size 8 at 9000 (order 2, level 1) and of size 5 at
  10000 (order 3, level 2); then the same book with a fresh market ask of size 10 (order 4).\<close>

definition multi_fill_ops :: "op list" where
  "multi_fill_ops = [LimitOp 5000 True 1 0 10 1, LimitOp 5000 True 1 0 11 2,
                     LimitOp 9000 True 8 0 12 3, LimitOp 10000 True 5 0 13 4]"

definition multi_fill_book :: state where
  "multi_fill_book = fst (NewOrder False 10 0 14 5 (run insertion_sort multi_fill_ops))"

text \<open>The same placements, the market ask of size 10, and the cancellation of order 0.\<close>

definition conservation_ops :: "op list" where
  "conservation_ops = multi_fill_ops @ [MarketOp False 10 0 14 5 (\<lambda>_. 6), CancelOp 0]"

subsection \<open>Notions used by the statements\<close>

text \<open>The total volume that the liquidity check of \<open>PlaceMarketOrder\<close> compares with.\<close>

definition opposite_volume :: "state \<Rightarrow> order_ref \<Rightarrow> real" where
  "opposite_volume s x = (if Order.Bid (orders s x) then AskTotalVolume s else BidTotalVolume s)"

text \<open>The slice and the price map of a side (\<open>True\<close> for the bids).\<close>

definition side_limits :: "bool \<Rightarrow> Orderbook \<Rightarrow> limit_ref list" where
  "side_limits bid b = (if bid then bids b else asks b)"

definition side_map :: "bool \<Rightarrow> Orderbook \<Rightarrow> real \<rightharpoonup> limit_ref" where
  "side_map bid b = (if bid then BidLimits b else AskLimits b)"

text \<open>The level that \<open>PlaceLimitOrder\<close> puts an order into: the level of the price map
  of the order's side, or else the level that \<open>NewLimit\<close> allocates.\<close>

definition target_level :: "real \<Rightarrow> order_ref \<Rightarrow> state \<Rightarrow> limit_ref" where
  "target_level price x s =
     (case side_map (Order.Bid (orders s x)) (ob s) price of Some l \<Rightarrow> l | None \<Rightarrow> next_limit s)"

text \<open>The resident order of a match produced for the incoming order \<open>x\<close>.\<close>

definition resting_of :: "order_ref \<Rightarrow> Match \<Rightarrow> order_ref" where
  "resting_of x m = (if Match.Ask m = x then Match.Bid m else Match.Ask m)"

text \<open>The effect of one iteration of the first loop of \<open>Fill\<close> on a resident \<open>a\<close>
  other than the incoming order \<open>x\<close>, in closed form (\<open>Fill_loop_Cons\<close> below).\<close>

definition filled_size :: "state \<Rightarrow> order_ref \<Rightarrow> order_ref \<Rightarrow> real" where
  "filled_size s a x = min (Order.Size (orders s a)) (Order.Size (orders s x))"

definition after_fill :: "limit_ref \<Rightarrow> order_ref \<Rightarrow> order_ref \<Rightarrow> state \<Rightarrow> state" where
  "after_fill l a x s =
     s\<lparr>orders := (orders s)
          (a := (orders s a)\<lparr>Order.Size := Order.Size (orders s a) - filled_size s a x\<rparr>,
           x := (orders s x)\<lparr>Order.Size := Order.Size (orders s x) - filled_size s a x\<rparr>),
       limits := (limits s)(l := (limits s l)
          \<lparr>TotalVolume := TotalVolume (limits s l) - filled_size s a x\<rparr>)\<rparr>"

text \<open>The second loop of \<open>Fill\<close>.\<close>

definition delete_all :: "sorter \<Rightarrow> limit_ref \<Rightarrow> order_ref list \<Rightarrow> state \<Rightarrow> state" where
  "delete_all srt l del s = foldl (\<lambda>s' order. DeleteOrder srt l order s') s del"

text \<open>Three bids resting at 100 in the order of their creation (orders 0, 1, 2 of sizes
  2, 3, 4 in level 0) and a fresh market ask of size 4 (order 3).\<close>

definition three_bids :: state where
  "three_bids = fst (NewOrder False 4 0 13 4
     (run insertion_sort [LimitOp 100 True 2 0 10 1, LimitOp 100 True 3 0 11 2, LimitOp 100 True 4 0 12 3]))"

subsection \<open>Well-formed books\<close>

definition levels :: "state \<Rightarrow> limit_ref list" where
  "levels s = asks (ob s) @ bids (ob s)"

text \<open>The orders resident on a side, level by level.\<close>

definition resident_orders :: "bool \<Rightarrow> state \<Rightarrow> order_ref list" where
  "resident_orders bid s = concat (map (\<lambda>l. Limit.Orders (limits s l)) (side_limits bid (ob s)))"

text \<open>The sum of the remaining sizes of the residents of a level.\<close>

definition resident_volume :: "state \<Rightarrow> limit_ref \<Rightarrow> real" where
  "resident_volume s l = (\<Sum>r\<leftarrow>Limit.Orders (limits s l). Order.Size (orders s r))"

text \<open>The invariant of the book: the levels of the two slices are distinct and allocated;
  the residents of a level are distinct; the cached volume of a level is the sum of its
  residents' sizes; the price map of a side holds exactly the levels of the side's slice,
  under their prices; an order points to a level exactly when it is resident in that level
  of the book; residents are on the side of their \<open>Bid\<close> flag; and an order that
  \<open>NewOrder\<close> has not created yet points to no level.\<close>

definition wf_book :: "state \<Rightarrow> bool" where
  "wf_book s \<longleftrightarrow>
     distinct (levels s) \<and> (\<forall>l \<in> set (levels s). l < next_limit s)
   \<and> (\<forall>l \<in> set (levels s). distinct (Limit.Orders (limits s l)))
   \<and> (\<forall>l \<in> set (levels s). TotalVolume (limits s l) = resident_volume s l)
   \<and> (\<forall>bid p l. side_map bid (ob s) p = Some l \<longleftrightarrow>
          l \<in> set (side_limits bid (ob s)) \<and> Limit.Price (limits s l) = p)
   \<and> (\<forall>r l. Order.Limit (orders s r) = Some l \<longleftrightarrow>
          l \<in> set (levels s) \<and> r \<in> set (Limit.Orders (limits s l)))
   \<and> (\<forall>bid. \<forall>l \<in> set (side_limits bid (ob s)). \<forall>r \<in> set (Limit.Orders (limits s l)).
          Order.Bid (orders s r) = bid)
   \<and> (\<forall>r. next_order s \<le> r \<longrightarrow> Order.Limit (orders s r) = None)"

definition no_empty_level :: "state \<Rightarrow> bool" where
  "no_empty_level s \<longleftrightarrow> (\<forall>l \<in> set (levels s). Limit.Orders (limits s l) \<noteq> [])"

text \<open>Volume conservation, as claim C2 states it, in exact arithmetic.\<close>

definition volume_conserved :: "state \<Rightarrow> bool" where
  "volume_conserved s \<longleftrightarrow>
     BidTotalVolume s = (\<Sum>r\<leftarrow>resident_orders True s. Order.Size (orders s r))
   \<and> AskTotalVolume s = (\<Sum>r\<leftarrow>resident_orders False s. Order.Size (orders s r))
   \<and> list_all (\<lambda>l. TotalVolume (limits s l) = resident_volume s l) (levels s)
   \<and> distinct (resident_orders True s @ resident_orders False s)"

subsection \<open>The sweep of a market order\<close>

text \<open>The sum of the cached volumes of a side (\<open>BidTotalVolume\<close> and
  \<open>AskTotalVolume\<close> as a sum), and the matching priority of a level and of a match on the
  side being swept: ascending price for the asks, descending price for the bids.\<close>

definition side_volume :: "bool \<Rightarrow> state \<Rightarrow> real" where
  "side_volume bid s = (\<Sum>l\<leftarrow>side_limits bid (ob s). TotalVolume (limits s l))"

definition priority :: "bool \<Rightarrow> state \<Rightarrow> limit_ref \<Rightarrow> real" where
  "priority bid s l = (if bid then - Limit.Price (limits s l) else Limit.Price (limits s l))"

definition match_priority :: "bool \<Rightarrow> Match \<Rightarrow> real" where
  "match_priority bid m = (if bid then - Match.Price m else Match.Price m)"

text \<open>The invariant of the sweep before iteration \<open>i\<close>, on the side \<open>bid\<close>, with the backing
  array \<open>arr\<close> and the matches \<open>ms\<close> so far: the book is well formed and has no empty
  level; the incoming order is not resident; the side's slice is a prefix of the array; the
  cells from \<open>i\<close> on are distinct levels of the side, in matching priority; while the
  incoming order is not filled, no other level is left on the side; the matches are in
  matching priority and none of them is worse than a level still on the side.\<close>

definition sweep_inv :: "bool \<Rightarrow> order_ref \<Rightarrow> nat \<Rightarrow> limit_ref list \<Rightarrow> state \<Rightarrow> Match list \<Rightarrow> bool" where
  "sweep_inv bid x i arr s ms \<longleftrightarrow>
     wf_book s \<and> no_empty_level s \<and> Order.Limit (orders s x) = None
   \<and> length (side_limits bid (ob s)) \<le> length arr
   \<and> take (length (side_limits bid (ob s))) arr = side_limits bid (ob s)
   \<and> distinct (drop i arr) \<and> set (drop i arr) \<subseteq> set (side_limits bid (ob s))
   \<and> sorted (map (priority bid s) (drop i arr))
   \<and> (\<not> IsFilled (orders s x) \<longrightarrow> set (side_limits bid (ob s)) \<subseteq> set (drop i arr))
   \<and> sorted (map (match_priority bid) ms)
   \<and> (\<forall>m \<in> set ms. \<forall>l \<in> set (side_limits bid (ob s)). match_priority bid m \<le> priority bid s l)"

text \<open>A condition on a concrete sweep under which the result does not depend on the sorting
  algorithm: while the incoming order is not filled, every level that the sweep visits holds
  at most one order (a slice of at most one element has one permutation). The condition
  follows the sweep as insertion sort runs it.\<close>

fun short_levels :: "bool \<Rightarrow> order_ref \<Rightarrow> nat \<Rightarrow> nat \<Rightarrow> limit_ref list \<Rightarrow> state \<Rightarrow> bool" where
  "short_levels bid x 0 i arr s = True"
| "short_levels bid x (Suc k) i arr s =
     ((IsFilled (orders s x)
        \<or> length (Limit.Orders (limits s (arr ! i))) \<le> 1 \<and> x \<notin> set (Limit.Orders (limits s (arr ! i))))
      \<and> (let limit = arr ! i;
              (s1, limitMatches) = Fill insertion_sort limit x s;
              (arr', s2) = (if Limit.Orders (limits s1 limit) = []
                            then clearLimit_arr bid limit arr s1 else (arr, s1))
          in short_levels bid x k (i + 1) arr' s2))"

section \<open>The same functions in binary64 arithmetic\<close>

subsection \<open>Rounding\<close>

text \<open>A finite binary64 number is \<open>m * 2^(e - 52)\<close> with an integer \<open>m\<close>, \<open>\<bar>m\<bar> < 2^53\<close>,
  and an exponent \<open>- 1022 \<le> e \<le> 1023\<close>. \<open>round_even\<close> is the integer nearest to a real
  number, the even one of two that are equally near. \<open>round64 x\<close> is the binary64 number
  nearest to \<open>x\<close>, ties to even: \<open>x\<close> is rounded to a multiple of the quantum
  \<open>2^(e - 52)\<close> of its binade \<open>2^e \<le> \<bar>x\<bar> < 2^(e + 1)\<close> (of the least binade, for a
  subnormal \<open>x\<close>). This is the result of a \<open>float64\<close> operation whose exact result is
  \<open>x\<close>, and the value of a Go constant \<open>x\<close> converted to \<open>float64\<close>, as long as the
  result is finite (\<open>\<bar>x\<bar> < 2^1024 - 2^970\<close>); overflow is left out.\<close>

definition round_even :: "real \<Rightarrow> int" where
  "round_even y =
     (let n = \<lfloor>y\<rfloor>; d = y - of_int n in
      if d < 1/2 then n else if 1/2 < d then n + 1 else if even n then n else n + 1)"

definition round64 :: "real \<Rightarrow> real" where
  "round64 x =
     (if x = 0 then 0
      else (let e = max \<lfloor>log 2 \<bar>x\<bar>\<rfloor> (- 1022); q = 2 powr (of_int e - 52)
            in of_int (round_even (x / q)) * q))"

subsection \<open>Limit and Orderbook\<close>

text \<open>The functions of the source that add or subtract sizes, statement by statement as
  above, with the result of every \<open>+\<close> and \<open>-\<close> rounded. \<open>NewOrder\<close>, \<open>NewLimit\<close>,
  \<open>IsFilled\<close>, the removal loop, \<open>Asks\<close>, \<open>Bids\<close>, \<open>clearLimit\<close> and the end of
  \<open>PlaceMarketOrder\<close> do no arithmetic on sizes and are the ones above; comparisons of
  finite \<open>float64\<close> numbers are comparisons of reals.\<close>

definition AddOrder64 :: "limit_ref \<Rightarrow> order_ref \<Rightarrow> state \<Rightarrow> state" where
  "AddOrder64 l x s =
     (let s1 = upd_order x (\<lambda>v. v\<lparr>Limit := Some l\<rparr>) s;
          s2 = upd_limit l (\<lambda>v. v\<lparr>Limit.Orders := Limit.Orders v @ [x]\<rparr>) s1
      in upd_limit l (\<lambda>v. v\<lparr>TotalVolume := round64 (TotalVolume v + Order.Size (orders s2 x))\<rparr>) s2)"

definition DeleteOrder64 :: "sorter \<Rightarrow> limit_ref \<Rightarrow> order_ref \<Rightarrow> state \<Rightarrow> state" where
  "DeleteOrder64 srt l x s =
     (let s1 = upd_limit l (\<lambda>v. v\<lparr>Limit.Orders := remove_swap x (Limit.Orders v)\<rparr>) s;
          s2 = upd_order x (\<lambda>v. v\<lparr>Limit := None\<rparr>) s1;
          s3 = upd_limit l (\<lambda>v. v\<lparr>TotalVolume := round64 (TotalVolume v - Order.Size (orders s2 x))\<rparr>) s2
      in upd_limit l (\<lambda>v. v\<lparr>Limit.Orders :=
            srt (\<lambda>i j. Order.Timestamp (orders s3 i) < Order.Timestamp (orders s3 j))
                (Limit.Orders v)\<rparr>) s3)"

definition fillOrder64 :: "limit_ref \<Rightarrow> order_ref \<Rightarrow> order_ref \<Rightarrow> state \<Rightarrow> state \<times> Match" where
  "fillOrder64 l a b s =
     (let (bid, ask) = (if Order.Bid (orders s a) then (a, b) else (b, a)) in
      if Order.Size (orders s a) \<ge> Order.Size (orders s b) then
        (let s1 = upd_order a (\<lambda>v. v\<lparr>Order.Size := round64 (Order.Size v - Order.Size (orders s b))\<rparr>) s;
             sizeFilled = Order.Size (orders s1 b);
             s2 = upd_order b (\<lambda>v. v\<lparr>Order.Size := 0\<rparr>) s1
         in (s2, \<lparr>Match.Ask = ask, Match.Bid = bid, Match.SizeFilled = sizeFilled,
                   Match.Price = Limit.Price (limits s2 l)\<rparr>))
      else
        (let s1 = upd_order b (\<lambda>v. v\<lparr>Order.Size := round64 (Order.Size v - Order.Size (orders s a))\<rparr>) s;
             sizeFilled = Order.Size (orders s1 a);
             s2 = upd_order a (\<lambda>v. v\<lparr>Order.Size := 0\<rparr>) s1
         in (s2, \<lparr>Match.Ask = ask, Match.Bid = bid, Match.SizeFilled = sizeFilled,
                   Match.Price = Limit.Price (limits s2 l)\<rparr>)))"

fun Fill_loop64 :: "limit_ref \<Rightarrow> order_ref \<Rightarrow> order_ref list
    \<Rightarrow> state \<times> Match list \<times> order_ref list \<Rightarrow> state \<times> Match list \<times> order_ref list" where
  "Fill_loop64 l x [] acc = acc"
| "Fill_loop64 l x (order # rest) (s, matches, ordersToDelete) =
     (if IsFilled (orders s x) then (s, matches, ordersToDelete)
      else
        (let (s1, match) = fillOrder64 l order x s;
             s2 = upd_limit l (\<lambda>v. v\<lparr>TotalVolume := round64 (TotalVolume v - SizeFilled match)\<rparr>) s1
         in Fill_loop64 l x rest
              (s2, matches @ [match],
               if IsFilled (orders s2 order) then ordersToDelete @ [order] else ordersToDelete)))"

definition Fill64 :: "sorter \<Rightarrow> limit_ref \<Rightarrow> order_ref \<Rightarrow> state \<Rightarrow> state \<times> Match list" where
  "Fill64 srt l x s =
     (case Fill_loop64 l x (Limit.Orders (limits s l)) (s, [], []) of
        (s1, matches, ordersToDelete) \<Rightarrow>
          (foldl (\<lambda>s' order. DeleteOrder64 srt l order s') s1 ordersToDelete, matches))"

definition BidTotalVolume64 :: "state \<Rightarrow> real" where
  "BidTotalVolume64 s =
     foldl (\<lambda>totalVolume l. round64 (totalVolume + TotalVolume (limits s l))) 0 (bids (ob s))"

definition AskTotalVolume64 :: "state \<Rightarrow> real" where
  "AskTotalVolume64 s =
     foldl (\<lambda>totalVolume l. round64 (totalVolume + TotalVolume (limits s l))) 0 (asks (ob s))"

fun sweep64 :: "sorter \<Rightarrow> bool \<Rightarrow> order_ref \<Rightarrow> nat \<Rightarrow> nat \<Rightarrow> limit_ref list
    \<Rightarrow> state \<times> Match list \<Rightarrow> state \<times> Match list" where
  "sweep64 srt bid x 0 i arr acc = acc"
| "sweep64 srt bid x (Suc k) i arr (s, matches) =
     (let limit = arr ! i;
          (s1, limitMatches) = Fill64 srt limit x s;
          (arr', s2) = (if Limit.Orders (limits s1 limit) = [] then clearLimit_arr bid limit arr s1
                        else (arr, s1))
      in sweep64 srt bid x k (i + 1) arr' (s2, matches @ limitMatches))"

definition PlaceMarketOrder64 :: "sorter \<Rightarrow> (nat \<Rightarrow> int) \<Rightarrow> order_ref \<Rightarrow> state \<Rightarrow> Match list outcome" where
  "PlaceMarketOrder64 srt now x s =
     (if Order.Bid (orders s x) then
        (if Order.Size (orders s x) > AskTotalVolume64 s then
           Panic s (NotEnoughVolume (AskTotalVolume64 s) (Order.Size (orders s x)))
         else
           (case Asks srt s of (s1, arr) \<Rightarrow>
              finish_market now x (sweep64 srt False x (length arr) 0 arr (s1, []))))
      else
        (if Order.Size (orders s x) > BidTotalVolume64 s then
           Panic s (NotEnoughVolume (BidTotalVolume64 s) (Order.Size (orders s x)))
         else
           (case Bids srt s of (s1, arr) \<Rightarrow>
              finish_market now x (sweep64 srt True x (length arr) 0 arr (s1, [])))))"

definition PlaceLimitOrder64 :: "real \<Rightarrow> order_ref \<Rightarrow> state \<Rightarrow> state" where
  "PlaceLimitOrder64 price x s =
     (let limit = (if Order.Bid (orders s x) then BidLimits (ob s) price else AskLimits (ob s) price);
          (s1, l) = (case limit of
             Some l \<Rightarrow> (s, l)
           | None \<Rightarrow>
               (let (s', l) = NewLimit price s in
                if Order.Bid (orders s' x) then
                  (upd_ob (\<lambda>b. b\<lparr>bids := bids b @ [l], BidLimits := (BidLimits b)(price \<mapsto> l)\<rparr>) s', l)
                else
                  (upd_ob (\<lambda>b. b\<lparr>asks := asks b @ [l], AskLimits := (AskLimits b)(price \<mapsto> l)\<rparr>) s', l)));
          s2 = upd_ob (\<lambda>b. b\<lparr>Orderbook.Orders := (Orderbook.Orders b)(Order.ID (orders s1 x) \<mapsto> x)\<rparr>) s1
      in AddOrder64 l x s2)"

definition CancelOrder64 :: "sorter \<Rightarrow> order_ref \<Rightarrow> state \<Rightarrow> unit outcome" where
  "CancelOrder64 srt x s =
     (case Order.Limit (orders s x) of
        None \<Rightarrow> Panic s NilPointerDereference
      | Some limit \<Rightarrow>
          (let s1 = DeleteOrder64 srt limit x s;
               s2 = upd_ob (\<lambda>b. b\<lparr>Orderbook.Orders := (Orderbook.Orders b)(Order.ID (orders s1 x) := None)\<rparr>) s1
           in Return (if Limit.Orders (limits s2 limit) = []
                      then clearLimit (Order.Bid (orders s2 x)) limit s2 else s2) ()))"

fun step64 :: "sorter \<Rightarrow> state \<Rightarrow> op \<Rightarrow> state" where
  "step64 srt s (LimitOp price bid sz userID rnd now) =
     (case NewOrder bid sz userID rnd now s of (s1, x) \<Rightarrow> PlaceLimitOrder64 price x s1)"
| "step64 srt s (MarketOp bid sz userID rnd now clock) =
     (case NewOrder bid sz userID rnd now s of (s1, x) \<Rightarrow> state_of (PlaceMarketOrder64 srt clock x s1))"
| "step64 srt s (CancelOp x) = state_of (CancelOrder64 srt x s)"

definition run64 :: "sorter \<Rightarrow> op list \<Rightarrow> state" where
  "run64 srt ops = foldl (step64 srt) NewOrderbook ops"

text \<open>One iteration of the first loop of \<open>Fill64\<close> in closed form, and its second
  loop.\<close>

definition after_fill64 :: "limit_ref \<Rightarrow> order_ref \<Rightarrow> order_ref \<Rightarrow> state \<Rightarrow> state" where
  "after_fill64 l a x s =
     s\<lparr>orders := (orders s)
          (a := (orders s a)\<lparr>Order.Size := round64 (Order.Size (orders s a) - filled_size s a x)\<rparr>,
           x := (orders s x)\<lparr>Order.Size := round64 (Order.Size (orders s x) - filled_size s a x)\<rparr>),
       limits := (limits s)(l := (limits s l)
          \<lparr>TotalVolume := round64 (TotalVolume (limits s l) - filled_size s a x)\<rparr>)\<rparr>"

definition delete_all64 :: "sorter \<Rightarrow> limit_ref \<Rightarrow> order_ref list \<Rightarrow> state \<Rightarrow> state" where
  "delete_all64 srt l del s = foldl (\<lambda>s' order. DeleteOrder64 srt l order s') s del"

text \<open>Volume conservation, as claim C2 states it, with the totals that the code reports.\<close>

definition volume_conserved64 :: "state \<Rightarrow> bool" where
  "volume_conserved64 s \<longleftrightarrow>
     BidTotalVolume64 s = (\<Sum>r\<leftarrow>resident_orders True s. Order.Size (orders s r))
   \<and> AskTotalVolume64 s = (\<Sum>r\<leftarrow>resident_orders False s. Order.Size (orders s r))
   \<and> list_all (\<lambda>l. TotalVolume (limits s l) = resident_volume s l) (levels s)
   \<and> distinct (resident_orders True s @ resident_orders False s)"

subsection \<open>Concrete books in binary64 arithmetic\<close>

text \<open>The Go constant \<open>0.3\<close> is the binary64 number \<open>round64 (3/10)\<close>. A bid of size 0.3
  (order 0) and a bid of size 2 (order 1) are placed at 100 (level 0), then order 0 is
  cancelled.\<close>

definition drift_book :: state where
  "drift_book = run64 insertion_sort
     [LimitOp 100 True (round64 (3/10)) 0 1 1, LimitOp 100 True 2 0 2 2, CancelOp 0]"

text \<open>Bids of size \<open>2^53\<close> (order 0) and 1 (order 1) are placed at 100 (level 0), then a
  market ask of size \<open>2^53\<close> (order 2) is placed.\<close>

definition big_book :: state where
  "big_book = run64 insertion_sort
     [LimitOp 100 True (2 ^ 53) 0 1 1, LimitOp 100 True 1 0 2 2, MarketOp False (2 ^ 53) 0 3 3 (\<lambda>_. 4)]"

text \<open>Bids of size 0.1 (order 0) and 0.2 (order 1) rest at 100 (level 0); then the same book
  with a fresh market ask (order 2) whose size is the bid volume that the book reports.\<close>

definition dust_book :: state where
  "dust_book = run64 insertion_sort
     [LimitOp 100 True (round64 (1/10)) 0 1 1, LimitOp 100 True (round64 (2/10)) 0 2 2]"

definition dust_order :: state where
  "dust_order = fst (NewOrder False (BidTotalVolume64 dust_book) 0 3 3 dust_book)"

text \<open>The book of the test \<open>TestPlaceMarketOrderMultiFill\<close> with its market ask of size
  10 (order 4), built in binary64 arithmetic.\<close>

definition multi_fill_book64 :: state where
  "multi_fill_book64 = fst (NewOrder False 10 0 14 5 (run64 insertion_sort multi_fill_ops))"

section \<open>Evaluation\<close>

lemmas store_defs = upd_order_def upd_limit_def upd_ob_def

lemmas eval_defs = store_defs run_def NewOrder_def NewOrderbook_def NewLimit_def PlaceLimitOrder_def
  AddOrder_def DeleteOrder_def remove_swap_def remove_loop.simps fillOrder_def Fill_def IsFilled_def
  clearLimit_def clearLimit_arr_def Asks_def Bids_def AskTotalVolume_def BidTotalVolume_def
  PlaceMarketOrder_def finish_market_def CancelOrder_def insertion_sort_def Let_def

section \<open>A single fill step\<close>



section \<open>Market orders without liquidity\<close>




section \<open>Market orders without matches\<close>

lemma Fill_filled: "IsFilled (orders s x) \<Longrightarrow> Fill srt l x s = (s, [])"
  by (cases "Limit.Orders (limits s l)") (simp_all add: Fill_def)

lemma clearLimit_arr_frame:
  "clearLimit_arr bid l arr s = (arr', s') \<Longrightarrow>
     orders s' = orders s \<and> limits s' = limits s \<and> Trades (ob s') = Trades (ob s)"
  by (auto simp: clearLimit_arr_def store_defs Let_def split: if_splits prod.splits)

lemma sweep_filled:
  "IsFilled (orders s x) \<Longrightarrow> sweep srt bid x k i arr (s, ms) = (s', ms')
     \<Longrightarrow> ms' = ms \<and> Trades (ob s') = Trades (ob s) \<and> orders s' = orders s"
proof (induction k arbitrary: i arr s)
  case 0
  then show ?case by simp
next
  case (Suc k)
  obtain arr2 s2 where c:
    "(if Limit.Orders (limits s (arr ! i)) = [] then clearLimit_arr bid (arr ! i) arr s
      else (arr, s)) = (arr2, s2)"
    by fastforce
  then have f: "orders s2 = orders s \<and> limits s2 = limits s \<and> Trades (ob s2) = Trades (ob s)"
    using clearLimit_arr_frame by (auto split: if_splits)
  from Suc.prems c have "sweep srt bid x k (i + 1) arr2 (s2, ms) = (s', ms')"
    by (simp add: Fill_filled Let_def)
  moreover have "IsFilled (orders s2 x)" using f Suc.prems(1) by simp
  ultimately show ?case using Suc.IH f by metis
qed

lemma record_trades_Nil:
  "Trades (ob (record_trades now bid k ms s)) = [] \<longleftrightarrow> Trades (ob s) = [] \<and> ms = []"
  by (induction ms arbitrary: k s) (auto simp: store_defs)

text \<open>
  Claim C10. \<open>PlaceMarketOrder\<close> returns only with a trade history that is not empty,
  since its log line reads the last trade. On a book without trades, an order of size 0
  (which passes the liquidity check whenever the opposite volume is not negative, as on an
  empty side) produces no match, so the call panics with an index out of range instead of
  returning the empty list of matches.
\<close>

theorem PlaceMarketOrder_needs_trades:
  "(PlaceMarketOrder srt now x s = Return s' ms \<longrightarrow> Trades (ob s') \<noteq> [])
   \<and> (Trades (ob s) = [] \<and> Order.Size (orders s x) = 0 \<and> 0 \<le> opposite_volume s x
        \<longrightarrow> (\<exists>s''. PlaceMarketOrder srt now x s = Panic s'' IndexOutOfRange))"
proof (intro conjI impI)
  assume "PlaceMarketOrder srt now x s = Return s' ms"
  then show "Trades (ob s') \<noteq> []"
    by (auto simp: PlaceMarketOrder_def finish_market_def Let_def split: if_splits prod.splits)
next
  assume a: "Trades (ob s) = [] \<and> Order.Size (orders s x) = 0 \<and> 0 \<le> opposite_volume s x"
  define side where "side = (if Order.Bid (orders s x) then Asks srt s else Bids srt s)"
  obtain s1 arr where sd: "side = (s1, arr)" by fastforce
  then have s1: "orders s1 = orders s" "Trades (ob s1) = Trades (ob s)"
    by (auto simp: side_def Asks_def Bids_def store_defs Let_def split: if_splits)
  obtain s2 ms2 where sw:
    "sweep srt (\<not> Order.Bid (orders s x)) x (length arr) 0 arr (s1, []) = (s2, ms2)"
    by fastforce
  have "IsFilled (orders s1 x)" using a s1 by (simp add: IsFilled_def)
  from sweep_filled [OF this sw] have r: "ms2 = []" "Trades (ob s2) = []"
    using s1 a by simp_all
  have "finish_market now x (s2, ms2) = Panic s2 IndexOutOfRange"
    using r by (simp add: finish_market_def)
  then show "\<exists>s''. PlaceMarketOrder srt now x s = Panic s'' IndexOutOfRange"
    using a sd sw by (auto simp: PlaceMarketOrder_def opposite_volume_def side_def split: if_splits)
qed

theorem PlaceMarketOrder_needs_trades_witness:
  "Trades (ob zero_market) = [] \<and> Order.Size (orders zero_market 0) = 0
   \<and> 0 \<le> opposite_volume zero_market 0
   \<and> PlaceMarketOrder insertion_sort (\<lambda>_. 0) 0 zero_market = Panic zero_market IndexOutOfRange"
proof -
  have h: "Trades (ob zero_market) = [] \<and> Order.Size (orders zero_market 0) = 0
      \<and> 0 \<le> opposite_volume zero_market 0"
    by (simp add: zero_market_def opposite_volume_def eval_defs)
  have e: "PlaceMarketOrder insertion_sort (\<lambda>_. 0) 0 zero_market = Panic zero_market IndexOutOfRange"
    by (simp add: zero_market_def opposite_volume_def eval_defs)
  from PlaceMarketOrder_needs_trades [of insertion_sort "\<lambda>_. 0" 0 zero_market] h
  have "\<exists>s''. PlaceMarketOrder insertion_sort (\<lambda>_. 0) 0 zero_market = Panic s'' IndexOutOfRange"
    by blast
  with h e show ?thesis by simp
qed

section \<open>Orders that are not resident\<close>

text \<open>
  Claim C7 at a concrete input. An ask is placed and cancelled; cancelling it again finds
  its \<open>Limit\<close> pointer nil and panics with a nil dereference. The same happens at every
  further attempt, since the state stays as it is.
\<close>

theorem CancelOrder_twice_nil_dereference:
  "Order.Limit (orders (state_of (CancelOrder insertion_sort 0 one_ask)) 0) = None
   \<and> Orderbook.Orders (ob (state_of (CancelOrder insertion_sort 0 one_ask))) 1 = None
   \<and> CancelOrder insertion_sort 0 (state_of (CancelOrder insertion_sort 0 one_ask))
       = Panic (state_of (CancelOrder insertion_sort 0 one_ask)) NilPointerDereference"
  by (simp add: one_ask_def eval_defs)

text \<open>
  Claim C8 at a concrete input. Level 0 holds order 0 alone, of size 4; order 1, of size
  3, was never placed. \<open>DeleteOrder\<close> of order 1 on level 0 leaves the residents of the
  level as they are and lowers the cached volume of the level from 4 to 1.
\<close>

theorem DeleteOrder_stranger_changes_volume:
  "1 \<notin> set (Limit.Orders (limits one_ask_stranger 0))
   \<and> TotalVolume (limits one_ask_stranger 0) = 4
   \<and> Limit.Orders (limits (DeleteOrder insertion_sort 0 1 one_ask_stranger) 0) = [0]
   \<and> Order.Size (orders (DeleteOrder insertion_sort 0 1 one_ask_stranger) 0) = 4
   \<and> TotalVolume (limits (DeleteOrder insertion_sort 0 1 one_ask_stranger) 0) = 1"
  by (simp add: one_ask_stranger_def one_ask_def eval_defs)

text \<open>
  Claim C6 at a concrete input. An ask of size 10 (order 0, identifier 1) rests at 10000
  and a market bid of size 10 fills it. The order leaves its level and the level leaves the
  book, but the id index still maps identifier 1 to order 0, which is resident nowhere.
\<close>

theorem filled_order_stays_in_id_index:
  "Orderbook.Orders (ob filled_book) 1 = Some 0
   \<and> Order.Limit (orders filled_book 0) = None
   \<and> Order.Size (orders filled_book 0) = 0
   \<and> asks (ob filled_book) = [] \<and> bids (ob filled_book) = []
   \<and> length (Trades (ob filled_book)) = 1"
  by (simp add: filled_book_def eval_defs)

section \<open>Limit orders rest\<close>

text \<open>
  Claim C9. \<open>PlaceLimitOrder\<close> matches nothing, whatever the price is (also a price that
  crosses the spread): the trade history, every other order, every other price level and
  the opposite side stay as they are. The order keeps its size and gets its level as
  \<open>Limit\<close>; it is registered in the id index under its identifier and appended to the
  level of its price on its side, whose volume grows by the order's size. When the side has
  no level at the price, a new level is created and appended to the side's slice and
  entered in the side's price map.
\<close>

theorem PlaceLimitOrder_frame:
  "(let l = target_level price x s; s' = PlaceLimitOrder price x s; bid = Order.Bid (orders s x) in
      Trades (ob s') = Trades (ob s)
    \<and> (\<forall>r. r \<noteq> x \<longrightarrow> orders s' r = orders s r)
    \<and> orders s' x = (orders s x)\<lparr>Order.Limit := Some l\<rparr>
    \<and> (\<forall>l'. l' \<noteq> l \<longrightarrow> limits s' l' = limits s l')
    \<and> Orderbook.Orders (ob s') = (Orderbook.Orders (ob s))(Order.ID (orders s x) \<mapsto> x)
    \<and> side_limits (\<not> bid) (ob s') = side_limits (\<not> bid) (ob s)
    \<and> side_map (\<not> bid) (ob s') = side_map (\<not> bid) (ob s)
    \<and> (side_map bid (ob s) price \<noteq> None \<longrightarrow>
          limits s' l = (limits s l)\<lparr>Limit.Orders := Limit.Orders (limits s l) @ [x],
                                   TotalVolume := TotalVolume (limits s l) + Order.Size (orders s x)\<rparr>
        \<and> side_limits bid (ob s') = side_limits bid (ob s)
        \<and> side_map bid (ob s') = side_map bid (ob s))
    \<and> (side_map bid (ob s) price = None \<longrightarrow>
          limits s' l = \<lparr>Limit.Price = price, Limit.Orders = [x],
                         Limit.TotalVolume = Order.Size (orders s x)\<rparr>
        \<and> side_limits bid (ob s') = side_limits bid (ob s) @ [l]
        \<and> side_map bid (ob s') = (side_map bid (ob s))(price \<mapsto> l)))"
  by (auto simp: PlaceLimitOrder_def target_level_def side_map_def side_limits_def AddOrder_def
      NewLimit_def store_defs Let_def split: option.splits)

theorem PlaceLimitOrder_frame_witness:
  "(let s' = PlaceLimitOrder 11000 1 one_ask_bid10 in
      target_level 11000 1 one_ask_bid10 = 1
    \<and> side_map True (ob one_ask_bid10) 11000 = None
    \<and> Trades (ob s') = [] \<and> Trades (ob one_ask_bid10) = []
    \<and> asks (ob s') = [0] \<and> limits s' 0 = limits one_ask_bid10 0
    \<and> orders s' 0 = orders one_ask_bid10 0 \<and> Order.Size (orders s' 0) = 4
    \<and> Limit.Price (limits s' 0) = 10000
    \<and> bids (ob s') = [1]
    \<and> limits s' 1 = \<lparr>Limit.Price = 11000, Limit.Orders = [1], Limit.TotalVolume = 10\<rparr>
    \<and> Order.Limit (orders s' 1) = Some 1 \<and> Order.Size (orders s' 1) = 10)"
proof -
  have t: "target_level 11000 1 one_ask_bid10 = 1" "side_map True (ob one_ask_bid10) 11000 = None"
    "Order.Bid (orders one_ask_bid10 1)" "Trades (ob one_ask_bid10) = []" "asks (ob one_ask_bid10) = [0]"
    "bids (ob one_ask_bid10) = []"  "Order.Size (orders one_ask_bid10 0) = 4"  "Order.Size (orders one_ask_bid10 1) = 10"
    "Limit.Price (limits one_ask_bid10 0) = 10000"
    by (simp_all add: target_level_def side_map_def one_ask_bid10_def one_ask_def eval_defs)
  show ?thesis
    using PlaceLimitOrder_frame [of 11000 1 one_ask_bid10] t
    by (simp add: Let_def side_limits_def side_map_def)
qed

section \<open>The sorting contract and the removal loop\<close>

subsection \<open>Sorting\<close>

lemma mset_insert_by: "mset (insert_by lt x ys) = add_mset x (mset ys)"
  by (induction ys) auto

lemma set_insert_by: "set (insert_by lt x ys) = insert x (set ys)"
  by (induction ys) auto

lemma sorted_insert_by:
  fixes key :: "'a \<Rightarrow> real"
  shows "sorted (map key ys) \<Longrightarrow> sorted (map key (insert_by (\<lambda>i j. key i < key j) x ys))"
  by (induction ys) (auto simp: set_insert_by)

lemma mset_foldl_insert_by:
  "mset (foldl (\<lambda>acc x. insert_by lt x acc) acc xs) = mset acc + mset xs"
  by (induction xs arbitrary: acc) (auto simp: mset_insert_by)

lemma sorted_foldl_insert_by:
  fixes key :: "'a \<Rightarrow> real"
  shows "sorted (map key acc) \<Longrightarrow>
         sorted (map key (foldl (\<lambda>acc x. insert_by (\<lambda>i j. key i < key j) x acc) acc xs))"
  by (induction xs arbitrary: acc) (auto simp: sorted_insert_by)

lemma sort_contract_insertion_sort: "sort_contract insertion_sort"
  by (simp add: sort_contract_def insertion_sort_def mset_foldl_insert_by sorted_foldl_insert_by)

lemma srt_mset: "sort_contract srt \<Longrightarrow> mset (srt (\<lambda>i j. (key i :: real) < key j) xs) = mset xs"
  by (simp add: sort_contract_def)

lemma srt_sorted: "sort_contract srt \<Longrightarrow> sorted (map key (srt (\<lambda>i j. (key i :: real) < key j) xs))"
  by (simp add: sort_contract_def)

lemma srt_int:
  fixes t :: "nat \<Rightarrow> int"
  assumes "sort_contract srt"
  shows "mset (srt (\<lambda>i j. t i < t j) xs) = mset xs"
    and "sorted (map t (srt (\<lambda>i j. t i < t j) xs))"
proof -
  have e: "(\<lambda>i j. t i < t j) = (\<lambda>i j. real_of_int (t i) < real_of_int (t j))"
    by simp
  show "mset (srt (\<lambda>i j. t i < t j) xs) = mset xs"
    unfolding e using assms by (rule srt_mset)
  have "sorted (map (\<lambda>i. real_of_int (t i)) (srt (\<lambda>i j. t i < t j) xs))"
    unfolding e using assms by (rule srt_sorted)
  then show "sorted (map t (srt (\<lambda>i j. t i < t j) xs))"
    by (simp add: sorted_map)
qed

lemma srt_desc:
  fixes p :: "nat \<Rightarrow> real"
  assumes "sort_contract srt"
  shows "mset (srt (\<lambda>i j. p i > p j) xs) = mset xs"
    and "sorted (map (\<lambda>i. - p i) (srt (\<lambda>i j. p i > p j) xs))"
proof -
  have e: "(\<lambda>i j. p i > p j) = (\<lambda>i j. - p i < - p j)"
    by simp
  show "mset (srt (\<lambda>i j. p i > p j) xs) = mset xs"
    unfolding e using assms by (rule srt_mset)
  show "sorted (map (\<lambda>i. - p i) (srt (\<lambda>i j. p i > p j) xs))"
    unfolding e using assms by (rule srt_sorted)
qed

subsection \<open>The removal loop\<close>

lemma remove_loop_length: "length (fst (remove_loop i x arr n)) = length arr"
  by (induction i x arr n rule: remove_loop.induct) (subst remove_loop.simps, simp)

lemma remove_loop_le: "snd (remove_loop i x arr n) \<le> n"
  by (induction i x arr n rule: remove_loop.induct) (subst remove_loop.simps, auto)

lemma remove_loop_other: "arr ! q \<noteq> x \<Longrightarrow> fst (remove_loop i x arr n) ! q = arr ! q"
proof (induction i x arr n rule: remove_loop.induct)
  case (1 i x arr n)
  show ?case
  proof (cases "i < n \<and> arr ! i = x")
    case True
    then have "q \<noteq> i" using "1.prems" by auto
    then have "arr[i := arr ! (n - 1)] ! q = arr ! q" by simp
    with True "1.IH"(1) "1.prems" show ?thesis
      by (subst remove_loop.simps) simp
  next
    case False
    with "1.IH"(2) "1.prems" show ?thesis
      by (subst remove_loop.simps) auto
  qed
qed

lemma remove_loop_absent:
  "\<forall>j. i \<le> j \<and> j < n \<longrightarrow> arr ! j \<noteq> x \<Longrightarrow> remove_loop i x arr n = (arr, n)"
  by (induction i x arr n rule: remove_loop.induct) (subst remove_loop.simps, auto)

lemma remove_loop_found:
  assumes "i \<le> p" "p < n" "arr ! p = x" "\<forall>j. i \<le> j \<and> j < n \<and> j \<noteq> p \<longrightarrow> arr ! j \<noteq> x"
  shows "remove_loop i x arr n = (arr[p := arr ! (n - 1)], n - 1)"
  using assms
proof (induction "p - i" arbitrary: i)
  case 0
  then have "i = p" by simp
  have "remove_loop (p + 1) x (arr[p := arr ! (n - 1)]) (n - 1) = (arr[p := arr ! (n - 1)], n - 1)"
    using 0 by (intro remove_loop_absent) auto
  then show ?case using 0 \<open>i = p\<close> by (subst remove_loop.simps) simp
next
  case (Suc d)
  then have "i < p" "arr ! i \<noteq> x" by auto
  moreover have "remove_loop (i + 1) x arr n = (arr[p := arr ! (n - 1)], n - 1)"
    using Suc by (intro Suc.hyps(1)) auto
  ultimately show ?case using Suc.prems by (subst remove_loop.simps) simp
qed

lemma remove_swap_absent:
  assumes "x \<notin> set xs"
  shows "remove_swap x xs = xs"
proof -
  have "remove_loop 0 x xs (length xs) = (xs, length xs)"
    using assms by (intro remove_loop_absent) auto
  then show ?thesis by (simp add: remove_swap_def)
qed

lemma remove_swap_found:
  assumes "distinct xs" "p < length xs" "xs ! p = x"
  shows "remove_swap x xs = butlast (xs[p := last xs])"
proof -
  have "\<forall>j. 0 \<le> j \<and> j < length xs \<and> j \<noteq> p \<longrightarrow> xs ! j \<noteq> x"
    using assms by (auto simp: nth_eq_iff_index_eq)
  then have "remove_loop 0 x xs (length xs) = (xs[p := xs ! (length xs - 1)], length xs - 1)"
    using assms by (intro remove_loop_found) auto
  moreover have "xs ! (length xs - 1) = last xs"
    using assms by (metis last_conv_nth list.size(3) not_less_zero)
  ultimately show ?thesis by (simp add: remove_swap_def butlast_conv_take)
qed

lemma mset_remove_swap:
  assumes "distinct xs"
  shows "mset (remove_swap x xs) = mset xs - {#x#}"
proof (cases "x \<in> set xs")
  case False
  then show ?thesis by (simp add: remove_swap_absent)
next
  case True
  then obtain p where p: "p < length xs" "xs ! p = x" by (auto simp: in_set_conv_nth)
  have ne: "xs \<noteq> []" using True by auto
  have "mset (butlast (xs[p := last xs])) = mset xs - {#x#}"
  proof (cases "p = length xs - 1")
    case True
    then have "last xs = xs ! p" using ne by (simp add: last_conv_nth)
    then have "xs[p := last xs] = xs" by simp
    moreover have "x = last xs" using True p ne by (simp add: last_conv_nth)
    ultimately show ?thesis using ne by (metis add_mset_remove_trivial append_butlast_last_id mset.simps(2) mset_append union_mset_add_mset_right add.right_neutral mset.simps(1))
  next
    case False
    then have "p < length (butlast xs)" using p by simp
    have "butlast (xs[p := last xs]) = (butlast xs)[p := last xs]"
      using False by (simp add: butlast_list_update)
    then have "mset (butlast (xs[p := last xs])) = add_mset (last xs) (mset (butlast xs) - {#butlast xs ! p#})"
      using \<open>p < length (butlast xs)\<close> by (simp add: mset_update)
    moreover have "butlast xs ! p = x" using \<open>p < length (butlast xs)\<close> p by (simp add: nth_butlast)
    moreover have "mset xs = add_mset (last xs) (mset (butlast xs))"
      using ne by (metis append_butlast_last_id mset.simps(2) mset_append union_mset_add_mset_right add.right_neutral mset.simps(1))
    moreover have "x \<in># mset (butlast xs)"
      using \<open>butlast xs ! p = x\<close> \<open>p < length (butlast xs)\<close> by (metis nth_mem set_mset_mset)
    ultimately show ?thesis by simp
  qed
  then show ?thesis using remove_swap_found [OF assms p] by simp
qed

subsection \<open>Closed forms\<close>

lemma DeleteOrder_eq:
  "DeleteOrder srt l y s =
     s\<lparr>orders := (orders s)(y := (orders s y)\<lparr>Order.Limit := None\<rparr>),
       limits := (limits s)(l := (limits s l)
         \<lparr>TotalVolume := TotalVolume (limits s l) - Order.Size (orders s y),
          Limit.Orders := srt (\<lambda>i j. Order.Timestamp (orders s i) < Order.Timestamp (orders s j))
                              (remove_swap y (Limit.Orders (limits s l)))\<rparr>)\<rparr>"
proof -
  have "(\<lambda>i j. Order.Timestamp (if i = y then (orders s y)\<lparr>Order.Limit := None\<rparr> else orders s i)
            < Order.Timestamp (if j = y then (orders s y)\<lparr>Order.Limit := None\<rparr> else orders s j))
      = (\<lambda>i j. Order.Timestamp (orders s i) < Order.Timestamp (orders s j))"
    by (intro ext) simp
  then show ?thesis
    by (simp add: DeleteOrder_def store_defs Let_def fun_upd_def cong: if_cong)
qed

lemma fillOrder_eq:
  assumes "a \<noteq> x"
  shows "fillOrder l a x s =
    (s\<lparr>orders := (orders s)
          (a := (orders s a)\<lparr>Order.Size := Order.Size (orders s a) - filled_size s a x\<rparr>,
           x := (orders s x)\<lparr>Order.Size := Order.Size (orders s x) - filled_size s a x\<rparr>)\<rparr>,
     \<lparr>Match.Ask = (if Order.Bid (orders s a) then x else a),
      Match.Bid = (if Order.Bid (orders s a) then a else x),
      Match.SizeFilled = filled_size s a x, Match.Price = Limit.Price (limits s l)\<rparr>)"
  using assms
  by (auto simp: fillOrder_def filled_size_def store_defs Let_def min_def fun_upd_twist)

lemma Fill_loop_Cons:
  assumes "a \<noteq> x" "\<not> IsFilled (orders s x)"
  shows "Fill_loop l x (a # rest) (s, ms, del) =
     Fill_loop l x rest
       (after_fill l a x s,
        ms @ [\<lparr>Match.Ask = (if Order.Bid (orders s a) then x else a),
                Match.Bid = (if Order.Bid (orders s a) then a else x),
                Match.SizeFilled = filled_size s a x, Match.Price = Limit.Price (limits s l)\<rparr>],
        if Order.Size (orders s a) \<le> Order.Size (orders s x) then del @ [a] else del)"
  using assms
  by (auto simp: fillOrder_eq after_fill_def store_defs IsFilled_def filled_size_def min_def)

subsection \<open>The first loop of Fill\<close>

lemma Fill_loop_filled:
  "IsFilled (orders s x) \<Longrightarrow> Fill_loop l x xs (s, ms, del) = (s, ms, del)"
  by (cases xs) simp_all

lemma Fill_loop_frame:
  assumes "x \<notin> set xs" "Fill_loop l x xs (s, ms, del) = (s', ms', del')"
  shows "ob s' = ob s \<and> next_order s' = next_order s \<and> next_limit s' = next_limit s
       \<and> (\<forall>l'. l' \<noteq> l \<longrightarrow> limits s' l' = limits s l')
       \<and> Limit.Orders (limits s' l) = Limit.Orders (limits s l)
       \<and> Limit.Price (limits s' l) = Limit.Price (limits s l)
       \<and> (\<forall>r. r \<notin> set xs \<and> r \<noteq> x \<longrightarrow> orders s' r = orders s r)
       \<and> (\<forall>r. orders s' r = (orders s r)\<lparr>Order.Size := Order.Size (orders s' r)\<rparr>)"
  using assms
proof (induction xs arbitrary: s ms del)
  case Nil
  then show ?case by simp
next
  case (Cons a xs)
  show ?case
  proof (cases "IsFilled (orders s x)")
    case True
    with Cons.prems show ?thesis by simp
  next
    case False
    let ?s2 = "after_fill l a x s"
    from Cons.prems False obtain ms2 del2 where
      "Fill_loop l x xs (?s2, ms2, del2) = (s', ms', del')"
      by (simp add: Fill_loop_Cons del: Fill_loop.simps)
    from Cons.IH [OF _ this] Cons.prems(1)
    have ih: "ob s' = ob ?s2 \<and> next_order s' = next_order ?s2 \<and> next_limit s' = next_limit ?s2
       \<and> (\<forall>l'. l' \<noteq> l \<longrightarrow> limits s' l' = limits ?s2 l')
       \<and> Limit.Orders (limits s' l) = Limit.Orders (limits ?s2 l)
       \<and> Limit.Price (limits s' l) = Limit.Price (limits ?s2 l)
       \<and> (\<forall>r. r \<notin> set xs \<and> r \<noteq> x \<longrightarrow> orders s' r = orders ?s2 r)
       \<and> (\<forall>r. orders s' r = (orders ?s2 r)\<lparr>Order.Size := Order.Size (orders s' r)\<rparr>)"
      by simp
    show ?thesis
    proof (intro conjI allI impI)
      fix r
      show "orders s' r = (orders s r)\<lparr>Order.Size := Order.Size (orders s' r)\<rparr>"
      proof -
        have "orders s' r = (orders ?s2 r)\<lparr>Order.Size := Order.Size (orders s' r)\<rparr>"
          using ih by blast
        also have "\<dots> = (orders s r)\<lparr>Order.Size := Order.Size (orders s' r)\<rparr>"
          by (simp add: after_fill_def)
        finally show ?thesis .
      qed
    qed (use ih in \<open>auto simp: after_fill_def\<close>)
  qed
qed

lemma after_fill_simps:
  "ob (after_fill l a x s) = ob s"
  "a \<noteq> x \<Longrightarrow> Order.Size (orders (after_fill l a x s) a) = Order.Size (orders s a) - filled_size s a x"
  "Order.Size (orders (after_fill l a x s) x) = Order.Size (orders s x) - filled_size s a x"
  "r \<noteq> a \<Longrightarrow> r \<noteq> x \<Longrightarrow> orders (after_fill l a x s) r = orders s r"
  "TotalVolume (limits (after_fill l a x s) l) = TotalVolume (limits s l) - filled_size s a x"
  "Limit.Price (limits (after_fill l a x s) l') = Limit.Price (limits s l')"
  by (simp_all add: after_fill_def)

lemma Fill_loop_stays_filled:
  assumes "Fill_loop l x xs (s, ms, del) = (s', ms', del')" "IsFilled (orders s x)"
  shows "s' = s \<and> ms' = ms \<and> del' = del"
  using assms by (simp add: Fill_loop_filled)

lemma Fill_loop_matches:
  assumes "x \<notin> set xs" "distinct xs" "Fill_loop l x xs (s, ms, del) = (s', ms', del')"
  shows "\<exists>new. ms' = ms @ new \<and> length new \<le> length xs
       \<and> map (resting_of x) new = take (length new) xs
       \<and> (\<forall>m \<in> set new. Match.Price m = Limit.Price (limits s l))
       \<and> (\<forall>i. Suc i < length new \<longrightarrow> Order.Size (orders s' (xs ! i)) = 0)
       \<and> (new = [] \<longleftrightarrow> xs = [] \<or> IsFilled (orders s x))
       \<and> (\<not> IsFilled (orders s' x) \<longrightarrow> length new = length xs)
       \<and> del' = del @ filter (\<lambda>r. Order.Size (orders s' r) = 0) (take (length new) xs)"
  using assms
proof (induction xs arbitrary: s ms del)
  case Nil
  then show ?case by simp
next
  case (Cons a xs)
  show ?case
  proof (cases "IsFilled (orders s x)")
    case True
    with Cons.prems show ?thesis by simp
  next
    case False
    let ?s2 = "after_fill l a x s"
    let ?m = "\<lparr>Match.Ask = (if Order.Bid (orders s a) then x else a),
                Match.Bid = (if Order.Bid (orders s a) then a else x),
                Match.SizeFilled = filled_size s a x, Match.Price = Limit.Price (limits s l)\<rparr>"
    let ?d = "if Order.Size (orders s a) \<le> Order.Size (orders s x) then del @ [a] else del"
    have ax: "a \<noteq> x" "x \<notin> set xs" "a \<notin> set xs" "distinct xs" using Cons.prems by auto
    from Cons.prems False have run: "Fill_loop l x xs (?s2, ms @ [?m], ?d) = (s', ms', del')"
      by (simp add: Fill_loop_Cons del: Fill_loop.simps)
    from Cons.IH [OF ax(2) ax(4) run] obtain new where new:
      "ms' = (ms @ [?m]) @ new" "length new \<le> length xs"
      "map (resting_of x) new = take (length new) xs"
      "\<forall>m \<in> set new. Match.Price m = Limit.Price (limits ?s2 l)"
      "\<forall>i. Suc i < length new \<longrightarrow> Order.Size (orders s' (xs ! i)) = 0"
      "new = [] \<longleftrightarrow> xs = [] \<or> IsFilled (orders ?s2 x)"
      "\<not> IsFilled (orders s' x) \<longrightarrow> length new = length xs"
      "del' = ?d @ filter (\<lambda>r. Order.Size (orders s' r) = 0) (take (length new) xs)"
      by blast
    have a': "orders s' a = orders ?s2 a"
      using Fill_loop_frame [OF ax(2) run] ax by simp
    have a0: "Order.Size (orders ?s2 a) = 0 \<longleftrightarrow> Order.Size (orders s a) \<le> Order.Size (orders s x)"
      using ax(1) by (auto simp: after_fill_simps filled_size_def min_def)
    have x0: "\<not> IsFilled (orders ?s2 x) \<Longrightarrow> Order.Size (orders ?s2 a) = 0"
      using ax(1) by (auto simp: after_fill_simps filled_size_def min_def IsFilled_def split: if_splits)
    have stay: "\<not> IsFilled (orders s' x) \<Longrightarrow> \<not> IsFilled (orders ?s2 x)"
      using Fill_loop_stays_filled [OF run] by auto
    have rest: "resting_of x ?m = a"
      using ax(1) by (simp add: resting_of_def)
    show ?thesis
    proof (intro exI [of _ "?m # new"] conjI)
      show "ms' = ms @ ?m # new" using new(1) by simp
      show "length (?m # new) \<le> length (a # xs)" using new(2) by simp
      show "map (resting_of x) (?m # new) = take (length (?m # new)) (a # xs)"
        using new(3) rest by simp
      show "\<forall>m \<in> set (?m # new). Match.Price m = Limit.Price (limits s l)"
        using new(4) by (simp add: after_fill_simps)
      show "\<forall>i. Suc i < length (?m # new) \<longrightarrow> Order.Size (orders s' ((a # xs) ! i)) = 0"
      proof (intro allI impI)
        fix i assume i: "Suc i < length (?m # new)"
        show "Order.Size (orders s' ((a # xs) ! i)) = 0"
        proof (cases i)
          case 0
          then have "new \<noteq> []" using i by auto
          then have "\<not> IsFilled (orders ?s2 x)" using new(6) by simp
          then show ?thesis using x0 a' 0 by simp
        next
          case (Suc j)
          then show ?thesis using new(5) i by simp
        qed
      qed
      show "(?m # new = []) = (a # xs = [] \<or> IsFilled (orders s x))"
        using False by simp
      show "\<not> IsFilled (orders s' x) \<longrightarrow> length (?m # new) = length (a # xs)"
        using new(7) by simp
      show "del' = del @ filter (\<lambda>r. Order.Size (orders s' r) = 0) (take (length (?m # new)) (a # xs))"
        using new(8) a' a0 by simp
    qed
  qed
qed

lemma Fill_loop_volume:
  assumes "x \<notin> set xs" "distinct xs" "Fill_loop l x xs (s, ms, del) = (s', ms', del')"
  shows "TotalVolume (limits s' l) - (\<Sum>r\<leftarrow>xs. Order.Size (orders s' r))
           = TotalVolume (limits s l) - (\<Sum>r\<leftarrow>xs. Order.Size (orders s r))
       \<and> Order.Size (orders s' x) - TotalVolume (limits s' l)
           = Order.Size (orders s x) - TotalVolume (limits s l)"
  using assms
proof (induction xs arbitrary: s ms del)
  case Nil
  then show ?case by simp
next
  case (Cons a xs)
  show ?case
  proof (cases "IsFilled (orders s x)")
    case True
    with Cons.prems show ?thesis by simp
  next
    case False
    let ?s2 = "after_fill l a x s"
    have ax: "a \<noteq> x" "x \<notin> set xs" "a \<notin> set xs" "distinct xs" using Cons.prems by auto
    from Cons.prems False obtain ms2 del2 where run:
      "Fill_loop l x xs (?s2, ms2, del2) = (s', ms', del')"
      by (simp add: Fill_loop_Cons del: Fill_loop.simps)
    note ih = Cons.IH [OF ax(2) ax(4) run]
    have a': "orders s' a = orders ?s2 a"
      using Fill_loop_frame [OF ax(2) run] ax by simp
    have same: "(\<Sum>r\<leftarrow>xs. Order.Size (orders ?s2 r)) = (\<Sum>r\<leftarrow>xs. Order.Size (orders s r))"
      using ax by (intro arg_cong [where f = sum_list] map_cong) (auto simp: after_fill_def)
    show ?thesis
      using ih a' same ax(1) by (simp add: after_fill_simps)
  qed
qed

lemma Fill_loop_nonneg:
  assumes "x \<notin> set xs" "Fill_loop l x xs (s, ms, del) = (s', ms', del')"
    and "0 \<le> Order.Size (orders s x)" "0 \<le> Order.Size (orders s r)"
  shows "0 \<le> Order.Size (orders s' x) \<and> 0 \<le> Order.Size (orders s' r)"
  using assms
proof (induction xs arbitrary: s ms del)
  case Nil
  then show ?case by simp
next
  case (Cons a xs)
  show ?case
  proof (cases "IsFilled (orders s x)")
    case True
    with Cons.prems show ?thesis by simp
  next
    case False
    let ?s2 = "after_fill l a x s"
    have ax: "a \<noteq> x" "x \<notin> set xs" using Cons.prems by auto
    from Cons.prems False obtain ms2 del2 where run:
      "Fill_loop l x xs (?s2, ms2, del2) = (s', ms', del')"
      by (simp add: Fill_loop_Cons del: Fill_loop.simps)
    have "0 \<le> Order.Size (orders ?s2 x)" "0 \<le> Order.Size (orders ?s2 r)"
      using Cons.prems(3,4) ax(1) by (auto simp: after_fill_def filled_size_def min_def)
    then show ?thesis using Cons.IH [OF ax(2) run] by simp
  qed
qed

subsection \<open>DeleteOrder and the second loop of Fill\<close>

lemma DeleteOrder_frame:
  "ob (DeleteOrder srt l y s) = ob s"
  "next_order (DeleteOrder srt l y s) = next_order s"
  "next_limit (DeleteOrder srt l y s) = next_limit s"
  "orders (DeleteOrder srt l y s) = (orders s)(y := (orders s y)\<lparr>Order.Limit := None\<rparr>)"
  "l' \<noteq> l \<Longrightarrow> limits (DeleteOrder srt l y s) l' = limits s l'"
  "Limit.Price (limits (DeleteOrder srt l y s) l') = Limit.Price (limits s l')"
  "TotalVolume (limits (DeleteOrder srt l y s) l) = TotalVolume (limits s l) - Order.Size (orders s y)"
  by (simp_all add: DeleteOrder_eq)

lemma DeleteOrder_Orders:
  "Limit.Orders (limits (DeleteOrder srt l y s) l) =
     srt (\<lambda>i j. Order.Timestamp (orders s i) < Order.Timestamp (orders s j))
         (remove_swap y (Limit.Orders (limits s l)))"
  by (simp add: DeleteOrder_eq)

lemma DeleteOrder_mset:
  assumes "sort_contract srt" "distinct (Limit.Orders (limits s l))"
  shows "mset (Limit.Orders (limits (DeleteOrder srt l y s) l)) = mset (Limit.Orders (limits s l)) - {#y#}"
  using srt_int(1) [OF assms(1), of "\<lambda>r. Order.Timestamp (orders s r)"] assms(2)
  by (simp add: DeleteOrder_Orders mset_remove_swap)

lemma DeleteOrder_sorted:
  assumes "sort_contract srt"
  shows "sorted (map (\<lambda>r. Order.Timestamp (orders (DeleteOrder srt l y s) r))
                     (Limit.Orders (limits (DeleteOrder srt l y s) l)))"
proof -
  have "(\<lambda>r. Order.Timestamp (orders (DeleteOrder srt l y s) r)) = (\<lambda>r. Order.Timestamp (orders s r))"
    by (intro ext) (simp add: DeleteOrder_frame)
  then show ?thesis
    using srt_int(2) [OF assms, of "\<lambda>r. Order.Timestamp (orders s r)"]
    by (simp add: DeleteOrder_Orders)
qed

lemma sum_list_mset_remove:
  fixes f :: "'a \<Rightarrow> real"
  assumes "mset ys = mset xs - {#y#}" "y \<in> set xs"
  shows "(\<Sum>r\<leftarrow>ys. f r) + f y = (\<Sum>r\<leftarrow>xs. f r)"
proof -
  have "mset xs = add_mset y (mset ys)" using assms by simp
  then have "image_mset f (mset xs) = add_mset (f y) (image_mset f (mset ys))" by simp
  then have "sum_mset (mset (map f xs)) = f y + sum_mset (mset (map f ys))" by simp
  then show ?thesis by (simp only: sum_mset_sum_list)
qed

lemma subset_mset_distinct:
  assumes "mset ys \<subseteq># mset xs" "distinct xs"
  shows "distinct ys"
  unfolding distinct_count_atmost_1
proof (intro allI)
  fix a
  have le: "count (mset ys) a \<le> count (mset xs) a"
    using assms(1) by (rule mset_subset_eq_count)
  have "count (mset xs) a \<le> 1"
    using assms(2) by (simp add: distinct_count_atmost_1)
  with le have c1: "count (mset ys) a \<le> 1" by simp
  show "count (mset ys) a = (if a \<in> set ys then 1 else 0)"
  proof (cases "a \<in> set ys")
    case True
    then have "0 < count (mset ys) a" by simp
    with c1 have "count (mset ys) a = 1" by linarith
    with True show ?thesis by simp
  next
    case False
    then have "count (mset ys) a = 0" by (simp add: count_eq_zero_iff)
    with False show ?thesis by simp
  qed
qed

lemma DeleteOrder_set:
  assumes "sort_contract srt" "distinct (Limit.Orders (limits s l))"
  shows "set (Limit.Orders (limits (DeleteOrder srt l y s) l)) = set (Limit.Orders (limits s l)) - {y}"
    and "distinct (Limit.Orders (limits (DeleteOrder srt l y s) l))"
proof -
  note m = DeleteOrder_mset [OF assms, of y]
  have "set_mset (mset (remove1 y (Limit.Orders (limits s l)))) = set (Limit.Orders (limits s l)) - {y}"
    using assms(2) by (simp only: set_mset_mset set_remove1_eq)
  then have "set_mset (mset (Limit.Orders (limits s l)) - {#y#}) = set (Limit.Orders (limits s l)) - {y}"
    by simp
  then show "set (Limit.Orders (limits (DeleteOrder srt l y s) l)) = set (Limit.Orders (limits s l)) - {y}"
    unfolding m [symmetric] by simp
  have "mset (Limit.Orders (limits (DeleteOrder srt l y s) l)) \<subseteq># mset (Limit.Orders (limits s l))"
    unfolding m by simp
  then show "distinct (Limit.Orders (limits (DeleteOrder srt l y s) l))"
    using assms(2) by (rule subset_mset_distinct)
qed

lemma delete_all_simps:
  "delete_all srt l [] s = s"
  "delete_all srt l (y # del) s = delete_all srt l del (DeleteOrder srt l y s)"
  by (simp_all add: delete_all_def)

lemma delete_all_ob: "ob (delete_all srt l del s) = ob s"
  by (induction del arbitrary: s) (simp_all add: delete_all_simps DeleteOrder_frame)

lemma delete_all_next:
  "next_order (delete_all srt l del s) = next_order s \<and> next_limit (delete_all srt l del s) = next_limit s"
  by (induction del arbitrary: s) (simp_all add: delete_all_simps DeleteOrder_frame)

lemma delete_all_other: "l' \<noteq> l \<Longrightarrow> limits (delete_all srt l del s) l' = limits s l'"
  by (induction del arbitrary: s) (simp_all add: delete_all_simps DeleteOrder_frame)

lemma delete_all_Price: "Limit.Price (limits (delete_all srt l del s) l') = Limit.Price (limits s l')"
  by (induction del arbitrary: s) (simp_all add: delete_all_simps DeleteOrder_frame)

lemma delete_all_orders:
  "orders (delete_all srt l del s) r =
     (if r \<in> set del then (orders s r)\<lparr>Order.Limit := None\<rparr> else orders s r)"
  by (induction del arbitrary: s) (simp_all add: delete_all_simps DeleteOrder_frame)

lemmas delete_all_frame = delete_all_ob delete_all_next delete_all_other delete_all_Price

lemma delete_all_volume:
  "TotalVolume (limits (delete_all srt l del s) l) =
     TotalVolume (limits s l) - (\<Sum>r\<leftarrow>del. Order.Size (orders s r))"
proof (induction del arbitrary: s)
  case Nil
  then show ?case by (simp add: delete_all_simps)
next
  case (Cons y del)
  have "(\<Sum>r\<leftarrow>del. Order.Size (orders (DeleteOrder srt l y s) r)) = (\<Sum>r\<leftarrow>del. Order.Size (orders s r))"
    by (intro arg_cong [where f = sum_list] map_cong) (simp_all add: DeleteOrder_frame)
  then show ?case
    by (simp add: delete_all_simps Cons.IH DeleteOrder_frame)
qed

lemma delete_all_Orders:
  assumes "sort_contract srt" "distinct (Limit.Orders (limits s l))"
  shows "mset (Limit.Orders (limits (delete_all srt l del s) l)) = mset (Limit.Orders (limits s l)) - mset del"
  using assms(2)
proof (induction del arbitrary: s)
  case Nil
  then show ?case by (simp add: delete_all_simps)
next
  case (Cons y del)
  have "distinct (Limit.Orders (limits (DeleteOrder srt l y s) l))"
    using DeleteOrder_set(2) [OF assms(1) Cons.prems] .
  from Cons.IH [OF this] show ?case
    by (simp add: delete_all_simps DeleteOrder_mset [OF assms(1) Cons.prems])
qed

lemma delete_all_sorted:
  assumes "sort_contract srt"
    and "sorted (map (\<lambda>r. Order.Timestamp (orders s r)) (Limit.Orders (limits s l)))"
  shows "sorted (map (\<lambda>r. Order.Timestamp (orders (delete_all srt l del s) r))
                     (Limit.Orders (limits (delete_all srt l del s) l)))"
  using assms(2)
proof (induction del arbitrary: s)
  case Nil
  then show ?case by (simp add: delete_all_simps)
next
  case (Cons y del)
  show ?case
    unfolding delete_all_simps
    by (rule Cons.IH) (rule DeleteOrder_sorted [OF assms(1)])
qed

subsection \<open>Fill\<close>

lemma Fill_eq:
  "Fill srt l x s =
     (case Fill_loop l x (Limit.Orders (limits s l)) (s, [], []) of
        (s1, ms, del) \<Rightarrow> (delete_all srt l del s1, ms))"
  by (simp add: Fill_def delete_all_def)

lemma Fill_loop_fields:
  assumes "x \<notin> set xs" "Fill_loop l x xs (s, ms, del) = (s', ms', del')"
  shows "Order.Timestamp (orders s' r) = Order.Timestamp (orders s r)"
    and "Order.Bid (orders s' r) = Order.Bid (orders s r)"
    and "Order.Limit (orders s' r) = Order.Limit (orders s r)"
    and "Order.ID (orders s' r) = Order.ID (orders s r)"
proof -
  have e: "orders s' r = (orders s r)\<lparr>Order.Size := Order.Size (orders s' r)\<rparr>"
    using Fill_loop_frame [OF assms] by blast
  show "Order.Timestamp (orders s' r) = Order.Timestamp (orders s r)"
    by (subst e) simp
  show "Order.Bid (orders s' r) = Order.Bid (orders s r)"
    by (subst e) simp
  show "Order.Limit (orders s' r) = Order.Limit (orders s r)"
    by (subst e) simp
  show "Order.ID (orders s' r) = Order.ID (orders s r)"
    by (subst e) simp
qed

text \<open>
  Claim C3. \<open>Fill\<close> on a level whose residents are distinct, do not include the
  incoming order \<open>x\<close> and are held oldest first: the residents of the matches are, in
  order, the first residents of the level, so the volume of \<open>x\<close> is consumed in ascending
  order of creation time; every matched resident but the last one ends with size 0, so no
  resident is matched while an earlier one still has volume; and the level is held oldest
  first again after the call. \<open>DeleteOrder\<close> of any order \<open>y\<close> leaves the level's
  residents ascending in their timestamps, and it leaves exactly the former residents
  other than \<open>y\<close>.
\<close>

theorem Fill_time_priority:
  assumes "sort_contract srt"
    and "distinct (Limit.Orders (limits s l))" and "x \<notin> set (Limit.Orders (limits s l))"
    and "sorted (map (\<lambda>r. Order.Timestamp (orders s r)) (Limit.Orders (limits s l)))"
    and "Fill srt l x s = (s', ms)"
  shows "map (resting_of x) ms = take (length ms) (Limit.Orders (limits s l))
       \<and> sorted (map (\<lambda>m. Order.Timestamp (orders s (resting_of x m))) ms)
       \<and> (\<forall>i. Suc i < length ms \<longrightarrow> Order.Size (orders s' (Limit.Orders (limits s l) ! i)) = 0)
       \<and> sorted (map (\<lambda>r. Order.Timestamp (orders s' r)) (Limit.Orders (limits s' l)))
       \<and> (\<forall>y. sorted (map (\<lambda>r. Order.Timestamp (orders (DeleteOrder srt l y s) r))
                          (Limit.Orders (limits (DeleteOrder srt l y s) l)))
              \<and> set (Limit.Orders (limits (DeleteOrder srt l y s) l))
                  = set (Limit.Orders (limits s l)) - {y})"
proof -
  let ?xs = "Limit.Orders (limits s l)"
  let ?T = "\<lambda>r. Order.Timestamp (orders s r)"
  obtain s1 del where loop: "Fill_loop l x ?xs (s, [], []) = (s1, ms, del)"
    and s': "s' = delete_all srt l del s1"
    using assms(5) by (auto simp: Fill_eq split: prod.splits)
  from Fill_loop_matches [OF assms(3) assms(2) loop]
  have m: "length ms \<le> length ?xs" "map (resting_of x) ms = take (length ms) ?xs"
    "\<forall>i. Suc i < length ms \<longrightarrow> Order.Size (orders s1 (?xs ! i)) = 0"
    by auto
  note fr = Fill_loop_frame [OF assms(3) loop]
  note ts = Fill_loop_fields(1) [OF assms(3) loop]
  have "map (\<lambda>m. ?T (resting_of x m)) ms = map ?T (map (resting_of x) ms)"
    by simp
  also have "\<dots> = map ?T (take (length ms) ?xs)"
    by (simp only: m(2))
  also have "\<dots> = take (length ms) (map ?T ?xs)"
    by (simp add: take_map)
  finally have b: "sorted (map (\<lambda>m. ?T (resting_of x m)) ms)"
    using assms(4) by simp
  have c: "\<forall>i. Suc i < length ms \<longrightarrow> Order.Size (orders s' (?xs ! i)) = 0"
    using m(3) by (simp add: s' delete_all_orders)
  have "sorted (map (\<lambda>r. Order.Timestamp (orders s1 r)) (Limit.Orders (limits s1 l)))"
    using assms(4) fr by (simp add: ts)
  then have d: "sorted (map (\<lambda>r. Order.Timestamp (orders s' r)) (Limit.Orders (limits s' l)))"
    unfolding s' by (rule delete_all_sorted [OF assms(1)])
  show ?thesis
  proof (intro conjI allI)
    show "map (resting_of x) ms = take (length ms) ?xs" by (rule m(2))
    show "sorted (map (\<lambda>m. ?T (resting_of x m)) ms)" by (rule b)
    show "Suc i < length ms \<longrightarrow> Order.Size (orders s' (?xs ! i)) = 0" for i using c by simp
    show "sorted (map (\<lambda>r. Order.Timestamp (orders s' r)) (Limit.Orders (limits s' l)))" by (rule d)
    show "sorted (map (\<lambda>r. Order.Timestamp (orders (DeleteOrder srt l y s) r))
                          (Limit.Orders (limits (DeleteOrder srt l y s) l)))" for y
      by (rule DeleteOrder_sorted [OF assms(1)])
    show "set (Limit.Orders (limits (DeleteOrder srt l y s) l)) = set ?xs - {y}" for y
      by (rule DeleteOrder_set(1) [OF assms(1) assms(2)])
  qed
qed

lemma three_bids_view:
  "Limit.Orders (limits three_bids 0) = [0, 1, 2]"
  "map (\<lambda>r. Order.Timestamp (orders three_bids r)) [0, 1, 2] = [1, 2, 3]"
  "map (\<lambda>r. Order.Size (orders three_bids r)) [0, 1, 2, 3] = [2, 3, 4, 4]"
  by (simp_all add: three_bids_def eval_defs)

lemma three_bids_Fill:
  "map (resting_of 3) (snd (Fill insertion_sort 0 3 three_bids)) = [0, 1]"
  "map SizeFilled (snd (Fill insertion_sort 0 3 three_bids)) = [2, 2]"
  "Limit.Orders (limits (fst (Fill insertion_sort 0 3 three_bids)) 0) = [1, 2]"
  "map (\<lambda>r. Order.Size (orders (fst (Fill insertion_sort 0 3 three_bids)) r)) [0, 1, 2, 3] = [0, 1, 4, 0]"
  "Limit.Orders (limits (DeleteOrder insertion_sort 0 0 three_bids) 0) = [1, 2]"
  by (simp_all add: three_bids_def eval_defs resting_of_def)

theorem Fill_time_priority_witness:
  "sort_contract insertion_sort
   \<and> distinct (Limit.Orders (limits three_bids 0)) \<and> 3 \<notin> set (Limit.Orders (limits three_bids 0))
   \<and> sorted (map (\<lambda>r. Order.Timestamp (orders three_bids r)) (Limit.Orders (limits three_bids 0)))
   \<and> Limit.Orders (limits three_bids 0) = [0, 1, 2]
   \<and> map (resting_of 3) (snd (Fill insertion_sort 0 3 three_bids)) = [0, 1]
   \<and> map SizeFilled (snd (Fill insertion_sort 0 3 three_bids)) = [2, 2]
   \<and> Order.Size (orders (fst (Fill insertion_sort 0 3 three_bids)) 0) = 0
   \<and> Limit.Orders (limits (fst (Fill insertion_sort 0 3 three_bids)) 0) = [1, 2]
   \<and> Limit.Orders (limits (DeleteOrder insertion_sort 0 0 three_bids) 0) = [1, 2]"
  using Fill_time_priority [OF sort_contract_insertion_sort, of three_bids 0 3
      "fst (Fill insertion_sort 0 3 three_bids)" "snd (Fill insertion_sort 0 3 three_bids)"]
    sort_contract_insertion_sort three_bids_view three_bids_Fill
  by simp

section \<open>The invariant\<close>

lemma wf_bookD:
  assumes "wf_book s"
  shows "distinct (levels s)"
    and "l \<in> set (levels s) \<Longrightarrow> l < next_limit s"
    and "l \<in> set (levels s) \<Longrightarrow> distinct (Limit.Orders (limits s l))"
    and "l \<in> set (levels s) \<Longrightarrow> TotalVolume (limits s l) = resident_volume s l"
    and "side_map bid (ob s) p = Some l \<longleftrightarrow> l \<in> set (side_limits bid (ob s)) \<and> Limit.Price (limits s l) = p"
    and "Order.Limit (orders s r) = Some l \<longleftrightarrow> l \<in> set (levels s) \<and> r \<in> set (Limit.Orders (limits s l))"
    and "l \<in> set (side_limits bid (ob s)) \<Longrightarrow> r \<in> set (Limit.Orders (limits s l)) \<Longrightarrow> Order.Bid (orders s r) = bid"
    and "next_order s \<le> r \<Longrightarrow> Order.Limit (orders s r) = None"
  using assms unfolding wf_book_def by blast+

lemma levels_sides: "set (levels s) = set (side_limits True (ob s)) \<union> set (side_limits False (ob s))"
  by (auto simp: levels_def side_limits_def)

lemma wf_NewOrderbook: "wf_book NewOrderbook"
  by (simp add: wf_book_def NewOrderbook_def levels_def side_limits_def side_map_def)

lemma wf_NewOrder:
  assumes "wf_book s" "NewOrder bid sz userID rnd now s = (s', x)"
  shows "wf_book s' \<and> x < next_order s' \<and> Order.Limit (orders s' x) = None
       \<and> ob s' = ob s \<and> limits s' = limits s \<and> no_empty_level s' = no_empty_level s"
proof -
  have s': "s' = s\<lparr>orders := (orders s)(x := \<lparr>Order.ID = rnd, Order.UserID = userID, Order.Size = sz,
        Order.Bid = bid, Order.Limit = None, Order.Timestamp = now\<rparr>), next_order := Suc x\<rparr>"
    and x: "x = next_order s"
    using assms(2) by (auto simp: NewOrder_def)
  have nores: "x \<notin> set (Limit.Orders (limits s l))" if "l \<in> set (levels s)" for l
    using wf_bookD(6) [OF assms(1), of x l] wf_bookD(8) [OF assms(1), of x] that x by auto
  have vol: "resident_volume s' l = resident_volume s l" if "l \<in> set (levels s)" for l
    unfolding resident_volume_def using nores [OF that]
    by (intro arg_cong [where f = sum_list]) (auto simp: s')
  have "wf_book s'"
    unfolding wf_book_def
  proof (intro conjI allI ballI impI)
    fix r l
    show "Order.Limit (orders s' r) = Some l \<longleftrightarrow> l \<in> set (levels s') \<and> r \<in> set (Limit.Orders (limits s' l))"
      using wf_bookD(6) [OF assms(1), of r l] nores [of l] by (auto simp: s' levels_def)
  next
    fix bid' l r
    assume "l \<in> set (side_limits bid' (ob s'))" "r \<in> set (Limit.Orders (limits s' l))"
    then show "Order.Bid (orders s' r) = bid'"
      using wf_bookD(7) [OF assms(1), of l bid' r] nores [of l] by (auto simp: s' levels_sides)
  next
    fix l assume "l \<in> set (levels s')"
    then show "TotalVolume (limits s' l) = resident_volume s' l"
      using wf_bookD(4) [OF assms(1), of l] vol [of l] by (simp add: s' levels_def)
  next
    show "distinct (levels s')" using wf_bookD(1) [OF assms(1)] by (simp add: s' levels_def)
  next
    fix l assume "l \<in> set (levels s')"
    then show "l < next_limit s'" using wf_bookD(2) [OF assms(1), of l] by (simp add: s' levels_def)
  next
    fix l assume "l \<in> set (levels s')"
    then show "distinct (Limit.Orders (limits s' l))"
      using wf_bookD(3) [OF assms(1), of l] by (simp add: s' levels_def)
  next
    fix bid' p l
    show "side_map bid' (ob s') p = Some l \<longleftrightarrow>
        l \<in> set (side_limits bid' (ob s')) \<and> Limit.Price (limits s' l) = p"
      using wf_bookD(5) [OF assms(1), of bid' p l] by (simp add: s')
  next
    fix r assume "next_order s' \<le> r"
    then show "Order.Limit (orders s' r) = None"
      using wf_bookD(8) [OF assms(1), of r] by (simp add: s' x)
  qed
  then show ?thesis by (simp add: s' no_empty_level_def levels_def)
qed

lemma wf_bookI:
  assumes "distinct (levels s)"
    and "\<And>l. l \<in> set (levels s) \<Longrightarrow> l < next_limit s"
    and "\<And>l. l \<in> set (levels s) \<Longrightarrow> distinct (Limit.Orders (limits s l))"
    and "\<And>l. l \<in> set (levels s) \<Longrightarrow> TotalVolume (limits s l) = resident_volume s l"
    and "\<And>bid p l. side_map bid (ob s) p = Some l \<longleftrightarrow>
          l \<in> set (side_limits bid (ob s)) \<and> Limit.Price (limits s l) = p"
    and "\<And>r l. Order.Limit (orders s r) = Some l \<longleftrightarrow>
          l \<in> set (levels s) \<and> r \<in> set (Limit.Orders (limits s l))"
    and "\<And>bid l r. l \<in> set (side_limits bid (ob s)) \<Longrightarrow> r \<in> set (Limit.Orders (limits s l)) \<Longrightarrow>
          Order.Bid (orders s r) = bid"
    and "\<And>r. next_order s \<le> r \<Longrightarrow> Order.Limit (orders s r) = None"
  shows "wf_book s"
  unfolding wf_book_def using assms by blast

lemma wf_not_resident:
  assumes "wf_book s" "Order.Limit (orders s x) = None" "l \<in> set (levels s)"
  shows "x \<notin> set (Limit.Orders (limits s l))"
  using wf_bookD(6) [OF assms(1), of x l] assms(2,3) by auto

lemma wf_resident_unique:
  assumes "wf_book s" "l \<in> set (levels s)" "l' \<in> set (levels s)"
    "r \<in> set (Limit.Orders (limits s l))" "r \<in> set (Limit.Orders (limits s l'))"
  shows "l = l'"
  using wf_bookD(6) [OF assms(1), of r l] wf_bookD(6) [OF assms(1), of r l'] assms(2-5) by auto

lemma PlaceLimitOrder_existing:
  assumes "side_map (Order.Bid (orders s x)) (ob s) price = Some l"
  shows "PlaceLimitOrder price x s =
     s\<lparr>orders := (orders s)(x := (orders s x)\<lparr>Order.Limit := Some l\<rparr>),
       limits := (limits s)(l := (limits s l)
          \<lparr>Limit.Orders := Limit.Orders (limits s l) @ [x],
           TotalVolume := TotalVolume (limits s l) + Order.Size (orders s x)\<rparr>),
       ob := (ob s)\<lparr>Orderbook.Orders := (Orderbook.Orders (ob s))(Order.ID (orders s x) \<mapsto> x)\<rparr>\<rparr>"
  using assms
  by (auto simp: PlaceLimitOrder_def side_map_def AddOrder_def store_defs Let_def split: if_splits)

lemma PlaceLimitOrder_new:
  assumes "side_map (Order.Bid (orders s x)) (ob s) price = None"
  shows "PlaceLimitOrder price x s =
     s\<lparr>orders := (orders s)(x := (orders s x)\<lparr>Order.Limit := Some (next_limit s)\<rparr>),
       limits := (limits s)(next_limit s :=
          \<lparr>Limit.Price = price, Limit.Orders = [x], Limit.TotalVolume = Order.Size (orders s x)\<rparr>),
       ob := (if Order.Bid (orders s x)
              then (ob s)\<lparr>bids := bids (ob s) @ [next_limit s],
                          BidLimits := (BidLimits (ob s))(price \<mapsto> next_limit s),
                          Orderbook.Orders := (Orderbook.Orders (ob s))(Order.ID (orders s x) \<mapsto> x)\<rparr>
              else (ob s)\<lparr>asks := asks (ob s) @ [next_limit s],
                          AskLimits := (AskLimits (ob s))(price \<mapsto> next_limit s),
                          Orderbook.Orders := (Orderbook.Orders (ob s))(Order.ID (orders s x) \<mapsto> x)\<rparr>),
       next_limit := Suc (next_limit s)\<rparr>"
  using assms
  by (auto simp: PlaceLimitOrder_def side_map_def AddOrder_def NewLimit_def store_defs Let_def
      split: if_splits)

lemma resident_volume_cong:
  assumes "Limit.Orders (limits s' l) = Limit.Orders (limits s l)"
    and "\<And>r. r \<in> set (Limit.Orders (limits s l)) \<Longrightarrow> Order.Size (orders s' r) = Order.Size (orders s r)"
  shows "resident_volume s' l = resident_volume s l"
  unfolding resident_volume_def assms(1)
  by (intro arg_cong [where f = sum_list] map_cong) (simp_all add: assms(2))

lemma side_in_levels: "l \<in> set (side_limits b (ob s)) \<Longrightarrow> l \<in> set (levels s)"
  by (cases b) (auto simp: levels_def side_limits_def)

lemma side_unique:
  assumes "distinct (levels s)" "l \<in> set (side_limits b (ob s))" "l \<in> set (side_limits b' (ob s))"
  shows "b = b'"
  using assms by (cases b; cases b') (auto simp: levels_def side_limits_def)

lemma wf_PlaceLimitOrder_existing:
  assumes wf: "wf_book s" and x: "Order.Limit (orders s x) = None" "x < next_order s"
    and l: "side_map (Order.Bid (orders s x)) (ob s) price = Some l"
  shows "wf_book (PlaceLimitOrder price x s)"
proof -
  let ?s' = "PlaceLimitOrder price x s"
  note e = PlaceLimitOrder_existing [OF l]
  have lside: "l \<in> set (side_limits (Order.Bid (orders s x)) (ob s))"
    using wf_bookD(5) [OF wf] l by blast
  then have llev: "l \<in> set (levels s)" by (rule side_in_levels)
  have lev: "levels ?s' = levels s" "side_limits b (ob ?s') = side_limits b (ob s)"
    "side_map b (ob ?s') = side_map b (ob s)" for b
    by (simp_all add: e levels_def side_limits_def side_map_def)
  note nores = wf_not_resident [OF wf x(1)]
  have ord: "Limit.Orders (limits ?s' l') = (if l' = l then Limit.Orders (limits s l) @ [x]
      else Limit.Orders (limits s l'))" for l'
    by (simp add: e)
  have tv: "TotalVolume (limits ?s' l') = (if l' = l then TotalVolume (limits s l) + Order.Size (orders s x)
      else TotalVolume (limits s l'))" for l'
    by (simp add: e)
  have pr: "Limit.Price (limits ?s' l') = Limit.Price (limits s l')" for l' by (simp add: e)
  have sz: "Order.Size (orders ?s' r) = Order.Size (orders s r)" for r by (simp add: e)
  have bd: "Order.Bid (orders ?s' r) = Order.Bid (orders s r)" for r by (simp add: e)
  have lm: "Order.Limit (orders ?s' r) = (if r = x then Some l else Order.Limit (orders s r))" for r
    by (simp add: e)
  have nx: "next_limit ?s' = next_limit s" "next_order ?s' = next_order s" by (simp_all add: e)
  have rv: "resident_volume ?s' l' = (if l' = l then resident_volume s l + Order.Size (orders s x)
        else resident_volume s l')" for l'
    by (simp add: resident_volume_def ord sz)
  show ?thesis
  proof (rule wf_bookI)
    show "distinct (levels ?s')" using wf_bookD(1) [OF wf] by (simp add: lev)
  next
    fix l' assume "l' \<in> set (levels ?s')"
    then show "l' < next_limit ?s'" using wf_bookD(2) [OF wf, of l'] by (simp add: lev nx)
  next
    fix l' assume "l' \<in> set (levels ?s')"
    then show "distinct (Limit.Orders (limits ?s' l'))"
      using wf_bookD(3) [OF wf, of l'] nores [of l'] by (auto simp: lev ord)
  next
    fix l' assume a: "l' \<in> set (levels ?s')"
    then show "TotalVolume (limits ?s' l') = resident_volume ?s' l'"
      using wf_bookD(4) [OF wf, of l'] by (auto simp: lev tv rv)
  next
    fix b p l'
    show "side_map b (ob ?s') p = Some l' \<longleftrightarrow>
        l' \<in> set (side_limits b (ob ?s')) \<and> Limit.Price (limits ?s' l') = p"
      using wf_bookD(5) [OF wf, of b p l'] by (simp add: lev pr)
  next
    fix r l'
    show "Order.Limit (orders ?s' r) = Some l' \<longleftrightarrow>
        l' \<in> set (levels ?s') \<and> r \<in> set (Limit.Orders (limits ?s' l'))"
      using wf_bookD(6) [OF wf, of r l'] nores [of l'] llev by (auto simp: lev ord lm)
  next
    fix b l' r
    assume a: "l' \<in> set (side_limits b (ob ?s'))" "r \<in> set (Limit.Orders (limits ?s' l'))"
    show "Order.Bid (orders ?s' r) = b"
    proof (cases "r = x \<and> l' = l")
      case True
      have "l \<in> set (side_limits b (ob s))" using a(1) True by (simp add: lev)
      then have "b = Order.Bid (orders s x)"
        using lside wf_bookD(1) [OF wf] by (rule side_unique [rotated])
      then show ?thesis using True bd by simp
    next
      case False
      then have "r \<in> set (Limit.Orders (limits s l'))"
        using a(2) by (auto simp: ord split: if_splits)
      then show ?thesis using wf_bookD(7) [OF wf, of l' b r] a(1) bd by (simp add: lev)
    qed
  next
    fix r assume "next_order ?s' \<le> r"
    then show "Order.Limit (orders ?s' r) = None"
      using wf_bookD(8) [OF wf, of r] x(2) by (simp add: lm nx)
  qed
qed

lemma wf_PlaceLimitOrder_new:
  assumes wf: "wf_book s" and x: "Order.Limit (orders s x) = None" "x < next_order s"
    and l: "side_map (Order.Bid (orders s x)) (ob s) price = None"
  shows "wf_book (PlaceLimitOrder price x s)"
proof -
  let ?s' = "PlaceLimitOrder price x s"
  let ?l = "next_limit s"
  let ?b = "Order.Bid (orders s x)"
  note e = PlaceLimitOrder_new [OF l]
  have fresh: "?l \<notin> set (levels s)" using wf_bookD(2) [OF wf, of ?l] by auto
  have sl: "side_limits b (ob ?s') = (if b = ?b then side_limits b (ob s) @ [?l] else side_limits b (ob s))" for b
    by (auto simp: e side_limits_def)
  have sm: "side_map b (ob ?s') = (if b = ?b then (side_map b (ob s))(price \<mapsto> ?l) else side_map b (ob s))" for b
    by (auto simp: e side_map_def)
  have lev: "set (levels ?s') = insert ?l (set (levels s))"
    by (auto simp: e levels_def)
  have dl: "distinct (levels ?s')"
    using wf_bookD(1) [OF wf] fresh by (auto simp: e levels_def)
  note nores = wf_not_resident [OF wf x(1)]
  have ord: "Limit.Orders (limits ?s' l') = (if l' = ?l then [x] else Limit.Orders (limits s l'))" for l'
    by (simp add: e)
  have tv: "TotalVolume (limits ?s' l') = (if l' = ?l then Order.Size (orders s x)
      else TotalVolume (limits s l'))" for l'
    by (simp add: e)
  have pr: "Limit.Price (limits ?s' l') = (if l' = ?l then price else Limit.Price (limits s l'))" for l'
    by (simp add: e)
  have sz: "Order.Size (orders ?s' r) = Order.Size (orders s r)" for r by (simp add: e)
  have bd: "Order.Bid (orders ?s' r) = Order.Bid (orders s r)" for r by (simp add: e)
  have lm: "Order.Limit (orders ?s' r) = (if r = x then Some ?l else Order.Limit (orders s r))" for r
    by (simp add: e)
  have nx: "next_limit ?s' = Suc ?l" "next_order ?s' = next_order s" by (simp_all add: e)
  have rv: "resident_volume ?s' l' = (if l' = ?l then Order.Size (orders s x)
        else resident_volume s l')" for l'
    by (simp add: resident_volume_def ord sz)
  have noprice: "l' \<in> set (side_limits ?b (ob s)) \<Longrightarrow> Limit.Price (limits s l') \<noteq> price" for l'
    using wf_bookD(5) [OF wf, of ?b price l'] l by auto
  show ?thesis
  proof (rule wf_bookI)
    show "distinct (levels ?s')" by (rule dl)
  next
    fix l' assume "l' \<in> set (levels ?s')"
    then show "l' < next_limit ?s'" using wf_bookD(2) [OF wf, of l'] by (auto simp: lev nx)
  next
    fix l' assume "l' \<in> set (levels ?s')"
    then show "distinct (Limit.Orders (limits ?s' l'))"
      using wf_bookD(3) [OF wf, of l'] by (auto simp: lev ord)
  next
    fix l' assume a: "l' \<in> set (levels ?s')"
    then show "TotalVolume (limits ?s' l') = resident_volume ?s' l'"
      using wf_bookD(4) [OF wf, of l'] by (auto simp: lev tv rv)
  next
    fix b p l'
    have "l' \<in> set (side_limits b (ob s)) \<Longrightarrow> l' \<noteq> ?l"
      using fresh side_in_levels by blast
    then show "side_map b (ob ?s') p = Some l' \<longleftrightarrow>
        l' \<in> set (side_limits b (ob ?s')) \<and> Limit.Price (limits ?s' l') = p"
      using wf_bookD(5) [OF wf, of b p l'] noprice [of l'] fresh side_in_levels [of ?l b s]
      by (auto simp: sl sm pr)
  next
    fix r l'
    show "Order.Limit (orders ?s' r) = Some l' \<longleftrightarrow>
        l' \<in> set (levels ?s') \<and> r \<in> set (Limit.Orders (limits ?s' l'))"
      using wf_bookD(6) [OF wf, of r l'] nores [of l'] fresh by (auto simp: lev ord lm)
  next
    fix b l' r
    assume a: "l' \<in> set (side_limits b (ob ?s'))" "r \<in> set (Limit.Orders (limits ?s' l'))"
    show "Order.Bid (orders ?s' r) = b"
    proof (cases "l' = ?l")
      case True
      then have "r = x" using a(2) by (simp add: ord)
      moreover have "b = ?b" using a(1) True fresh side_in_levels [of ?l b s]
        by (auto simp: sl split: if_splits)
      ultimately show ?thesis by (simp add: bd)
    next
      case False
      then have "r \<in> set (Limit.Orders (limits s l'))" "l' \<in> set (side_limits b (ob s))"
        using a by (auto simp: ord sl split: if_splits)
      then show ?thesis using wf_bookD(7) [OF wf, of l' b r] by (simp add: bd)
    qed
  next
    fix r assume "next_order ?s' \<le> r"
    then show "Order.Limit (orders ?s' r) = None"
      using wf_bookD(8) [OF wf, of r] x(2) by (simp add: lm nx)
  qed
qed

lemma wf_PlaceLimitOrder:
  assumes "wf_book s" "Order.Limit (orders s x) = None" "x < next_order s"
  shows "wf_book (PlaceLimitOrder price x s)"
  using assms wf_PlaceLimitOrder_new wf_PlaceLimitOrder_existing
  by (cases "side_map (Order.Bid (orders s x)) (ob s) price") auto

lemma no_empty_PlaceLimitOrder:
  assumes "no_empty_level s"
  shows "no_empty_level (PlaceLimitOrder price x s)"
proof (cases "side_map (Order.Bid (orders s x)) (ob s) price")
  case None
  show ?thesis
    using assms unfolding no_empty_level_def PlaceLimitOrder_new [OF None]
    by (auto simp: levels_def)
next
  case (Some l)
  show ?thesis
    using assms unfolding no_empty_level_def PlaceLimitOrder_existing [OF Some]
    by (auto simp: levels_def)
qed

lemma resident_volume_DeleteOrder:
  assumes "sort_contract srt" "distinct (Limit.Orders (limits s l))" "y \<in> set (Limit.Orders (limits s l))"
  shows "resident_volume (DeleteOrder srt l y s) l = resident_volume s l - Order.Size (orders s y)"
proof -
  let ?s' = "DeleteOrder srt l y s"
  have sz: "(\<lambda>r. Order.Size (orders ?s' r)) = (\<lambda>r. Order.Size (orders s r))"
    by (intro ext) (simp add: DeleteOrder_frame)
  have "(\<Sum>r\<leftarrow>Limit.Orders (limits ?s' l). Order.Size (orders s r)) + Order.Size (orders s y)
      = (\<Sum>r\<leftarrow>Limit.Orders (limits s l). Order.Size (orders s r))"
    using DeleteOrder_mset [OF assms(1,2)] assms(3) by (rule sum_list_mset_remove)
  then show ?thesis by (simp add: resident_volume_def sz)
qed

lemma wf_DeleteOrder:
  assumes sc: "sort_contract srt" and wf: "wf_book s"
    and l: "l \<in> set (levels s)" and y: "y \<in> set (Limit.Orders (limits s l))"
  shows "wf_book (DeleteOrder srt l y s)"
proof -
  let ?s' = "DeleteOrder srt l y s"
  note dl = wf_bookD(3) [OF wf l]
  have lev: "levels ?s' = levels s" "side_limits b (ob ?s') = side_limits b (ob s)"
    "side_map b (ob ?s') = side_map b (ob s)" for b
    by (simp_all add: DeleteOrder_frame levels_def)
  have ord: "l' \<noteq> l \<Longrightarrow> Limit.Orders (limits ?s' l') = Limit.Orders (limits s l')" for l'
    by (simp add: DeleteOrder_frame)
  note ordl = DeleteOrder_set [OF sc dl, of y]
  have tv: "TotalVolume (limits ?s' l') = (if l' = l then TotalVolume (limits s l) - Order.Size (orders s y)
      else TotalVolume (limits s l'))" for l'
    by (simp add: DeleteOrder_frame)
  have pr: "Limit.Price (limits ?s' l') = Limit.Price (limits s l')" for l'
    by (simp add: DeleteOrder_frame)
  have sz: "Order.Size (orders ?s' r) = Order.Size (orders s r)" for r by (simp add: DeleteOrder_frame)
  have bd: "Order.Bid (orders ?s' r) = Order.Bid (orders s r)" for r by (simp add: DeleteOrder_frame)
  have lm: "Order.Limit (orders ?s' r) = (if r = y then None else Order.Limit (orders s r))" for r
    by (simp add: DeleteOrder_frame)
  have nx: "next_limit ?s' = next_limit s" "next_order ?s' = next_order s"
    by (simp_all add: DeleteOrder_frame)
  have rv: "resident_volume ?s' l' = (if l' = l then resident_volume s l - Order.Size (orders s y)
        else resident_volume s l')" for l'
    using resident_volume_DeleteOrder [OF sc dl y] resident_volume_cong [of ?s' l' s] ord [of l'] sz
    by auto
  have only: "l' \<in> set (levels s) \<Longrightarrow> y \<in> set (Limit.Orders (limits s l')) \<Longrightarrow> l' = l" for l'
    using wf_resident_unique [OF wf _ l _ y] by blast
  show ?thesis
  proof (rule wf_bookI)
    show "distinct (levels ?s')" using wf_bookD(1) [OF wf] by (simp add: lev)
  next
    fix l' assume "l' \<in> set (levels ?s')"
    then show "l' < next_limit ?s'" using wf_bookD(2) [OF wf, of l'] by (simp add: lev nx)
  next
    fix l' assume "l' \<in> set (levels ?s')"
    then show "distinct (Limit.Orders (limits ?s' l'))"
      using wf_bookD(3) [OF wf, of l'] ordl(2) ord [of l'] by (cases "l' = l") (simp_all add: lev)
  next
    fix l' assume a: "l' \<in> set (levels ?s')"
    then show "TotalVolume (limits ?s' l') = resident_volume ?s' l'"
      using wf_bookD(4) [OF wf, of l'] by (auto simp: lev tv rv)
  next
    fix b p l'
    show "side_map b (ob ?s') p = Some l' \<longleftrightarrow>
        l' \<in> set (side_limits b (ob ?s')) \<and> Limit.Price (limits ?s' l') = p"
      using wf_bookD(5) [OF wf, of b p l'] by (simp add: lev pr)
  next
    fix r l'
    show "Order.Limit (orders ?s' r) = Some l' \<longleftrightarrow>
        l' \<in> set (levels ?s') \<and> r \<in> set (Limit.Orders (limits ?s' l'))"
      using wf_bookD(6) [OF wf, of r l'] only [of l'] ordl(1) ord [of l']
      by (cases "l' = l") (auto simp: lev lm)
  next
    fix b l' r
    assume a: "l' \<in> set (side_limits b (ob ?s'))" "r \<in> set (Limit.Orders (limits ?s' l'))"
    then have "r \<in> set (Limit.Orders (limits s l'))"
      using ordl(1) ord [of l'] by (cases "l' = l") auto
    then show "Order.Bid (orders ?s' r) = b"
      using wf_bookD(7) [OF wf, of l' b r] a(1) by (simp add: lev bd)
  next
    fix r assume "next_order ?s' \<le> r"
    then show "Order.Limit (orders ?s' r) = None"
      using wf_bookD(8) [OF wf, of r] by (simp add: lm nx)
  qed
qed

lemma clearLimit_eq:
  "clearLimit bid l s =
     (if bid then s\<lparr>ob := (ob s)\<lparr>BidLimits := (BidLimits (ob s))(Limit.Price (limits s l) := None),
                                  bids := remove_swap l (bids (ob s))\<rparr>\<rparr>
      else s\<lparr>ob := (ob s)\<lparr>AskLimits := (AskLimits (ob s))(Limit.Price (limits s l) := None),
                          asks := remove_swap l (asks (ob s))\<rparr>\<rparr>)"
  by (auto simp: clearLimit_def clearLimit_arr_def remove_swap_def store_defs Let_def split: prod.splits)

lemma set_remove_swap:
  assumes "distinct xs"
  shows "set (remove_swap x xs) = set xs - {x}" and "distinct (remove_swap x xs)"
proof -
  note m = mset_remove_swap [OF assms, of x]
  have "set_mset (mset (remove1 x xs)) = set xs - {x}"
    using assms by (simp only: set_mset_mset set_remove1_eq)
  then have "set_mset (mset xs - {#x#}) = set xs - {x}" by simp
  then show "set (remove_swap x xs) = set xs - {x}"
    unfolding m [symmetric] by simp
  have "mset (remove_swap x xs) \<subseteq># mset xs" unfolding m by simp
  then show "distinct (remove_swap x xs)" using assms by (rule subset_mset_distinct)
qed

lemma clearLimit_frame:
  "orders (clearLimit b l s) = orders s"
  "limits (clearLimit b l s) = limits s"
  "next_order (clearLimit b l s) = next_order s"
  "next_limit (clearLimit b l s) = next_limit s"
  "Trades (ob (clearLimit b l s)) = Trades (ob s)"
  "side_limits b' (ob (clearLimit b l s)) =
     (if b' = b then remove_swap l (side_limits b (ob s)) else side_limits b' (ob s))"
  "side_map b' (ob (clearLimit b l s)) =
     (if b' = b then (side_map b (ob s))(Limit.Price (limits s l) := None) else side_map b' (ob s))"
  by (auto simp: clearLimit_eq side_limits_def side_map_def)

lemma resident_volume_same:
  "orders s' = orders s \<Longrightarrow> limits s' = limits s \<Longrightarrow> resident_volume s' l = resident_volume s l"
  by (simp add: resident_volume_def)

lemma levels_clearLimit:
  assumes "distinct (levels s)" "l \<in> set (side_limits b (ob s))"
  shows "set (levels (clearLimit b l s)) = set (levels s) - {l}"
    and "distinct (levels (clearLimit b l s))"
proof -
  have da: "distinct (asks (ob s))" and db: "distinct (bids (ob s))"
    and dj: "set (asks (ob s)) \<inter> set (bids (ob s)) = {}"
    using assms(1) by (auto simp: levels_def)
  show "set (levels (clearLimit b l s)) = set (levels s) - {l}"
    using assms(2) dj set_remove_swap(1) [OF da, of l] set_remove_swap(1) [OF db, of l]
    by (cases b) (auto simp: clearLimit_eq levels_def side_limits_def)
  show "distinct (levels (clearLimit b l s))"
    using dj da db set_remove_swap [OF da, of l] set_remove_swap [OF db, of l]
    by (cases b) (auto simp: clearLimit_eq levels_def)
qed

lemma wf_clearLimit:
  assumes wf: "wf_book s" and l: "l \<in> set (side_limits b (ob s))"
    and emp: "Limit.Orders (limits s l) = []"
  shows "wf_book (clearLimit b l s)"
proof -
  let ?s' = "clearLimit b l s"
  note fr = clearLimit_frame [where b = b and l = l and s = s]
  note lev = levels_clearLimit [OF wf_bookD(1) [OF wf] l]
  have ds: "distinct (side_limits b' (ob s))" for b'
    using wf_bookD(1) [OF wf] by (cases b') (auto simp: levels_def side_limits_def)
  have sl: "set (side_limits b' (ob ?s')) = (if b' = b then set (side_limits b (ob s)) - {l}
      else set (side_limits b' (ob s)))" for b'
    using set_remove_swap(1) [OF ds [of b], of l] by (simp add: fr)
  have rv: "resident_volume ?s' l' = resident_volume s l'" for l'
    by (rule resident_volume_same) (simp_all add: fr)
  show ?thesis
  proof (rule wf_bookI)
    show "distinct (levels ?s')" by (rule lev(2))
  next
    fix l' assume "l' \<in> set (levels ?s')"
    then show "l' < next_limit ?s'" using wf_bookD(2) [OF wf, of l'] by (simp add: lev fr)
  next
    fix l' assume "l' \<in> set (levels ?s')"
    then show "distinct (Limit.Orders (limits ?s' l'))"
      using wf_bookD(3) [OF wf, of l'] by (simp add: lev fr)
  next
    fix l' assume a: "l' \<in> set (levels ?s')"
    then show "TotalVolume (limits ?s' l') = resident_volume ?s' l'"
      using wf_bookD(4) [OF wf, of l'] by (simp add: lev rv fr)
  next
    fix b' p l'
    have one: "l' \<in> set (side_limits b (ob s)) \<Longrightarrow> Limit.Price (limits s l') = Limit.Price (limits s l)
        \<Longrightarrow> l' = l"
      using wf_bookD(5) [OF wf, of b "Limit.Price (limits s l)" l']
        wf_bookD(5) [OF wf, of b "Limit.Price (limits s l)" l] l by auto
    show "side_map b' (ob ?s') p = Some l' \<longleftrightarrow>
        l' \<in> set (side_limits b' (ob ?s')) \<and> Limit.Price (limits ?s' l') = p"
      using wf_bookD(5) [OF wf, of b' p l'] one
      by (auto simp: sl fr(2) fr(7))
  next
    fix r l'
    show "Order.Limit (orders ?s' r) = Some l' \<longleftrightarrow>
        l' \<in> set (levels ?s') \<and> r \<in> set (Limit.Orders (limits ?s' l'))"
      using wf_bookD(6) [OF wf, of r l'] emp by (auto simp: lev fr)
  next
    fix b' l' r
    assume a: "l' \<in> set (side_limits b' (ob ?s'))" "r \<in> set (Limit.Orders (limits ?s' l'))"
    have "l' \<in> set (side_limits b' (ob s))"
      using a(1) by (auto simp: sl split: if_splits)
    then show "Order.Bid (orders ?s' r) = b'"
      using wf_bookD(7) [OF wf, of l' b' r] a(2) by (simp add: fr(1,2))
  next
    fix r assume "next_order ?s' \<le> r"
    then show "Order.Limit (orders ?s' r) = None"
      using wf_bookD(8) [OF wf, of r] by (simp add: fr)
  qed
qed

lemma wf_book_index:
  "wf_book (upd_ob (\<lambda>b. b\<lparr>Orderbook.Orders := m b\<rparr>) s) = wf_book s"
  by (simp add: wf_book_def levels_def side_limits_def side_map_def resident_volume_def upd_ob_def)

lemma no_empty_index:
  "no_empty_level (upd_ob (\<lambda>b. b\<lparr>Orderbook.Orders := m b\<rparr>) s) = no_empty_level s"
  by (simp add: no_empty_level_def levels_def upd_ob_def)

lemma CancelOrder_Some:
  assumes "Order.Limit (orders s x) = Some l"
  shows "state_of (CancelOrder srt x s) =
     (let s2 = upd_ob (\<lambda>b. b\<lparr>Orderbook.Orders :=
                  (Orderbook.Orders b)(Order.ID (orders s x) := None)\<rparr>) (DeleteOrder srt l x s)
      in if Limit.Orders (limits s2 l) = [] then clearLimit (Order.Bid (orders s x)) l s2 else s2)"
  using assms by (simp add: CancelOrder_def Let_def DeleteOrder_frame upd_ob_def)

lemma wf_CancelOrder:
  assumes sc: "sort_contract srt" and wf: "wf_book s"
  shows "wf_book (state_of (CancelOrder srt x s))"
    and "no_empty_level s \<Longrightarrow> no_empty_level (state_of (CancelOrder srt x s))"
proof -
  have "wf_book (state_of (CancelOrder srt x s))
      \<and> (no_empty_level s \<longrightarrow> no_empty_level (state_of (CancelOrder srt x s)))"
  proof (cases "Order.Limit (orders s x)")
    case None
    then show ?thesis using wf by (simp add: CancelOrder_def)
  next
    case (Some l)
    let ?s1 = "DeleteOrder srt l x s"
    let ?s2 = "upd_ob (\<lambda>b. b\<lparr>Orderbook.Orders :=
                  (Orderbook.Orders b)(Order.ID (orders s x) := None)\<rparr>) ?s1"
    have l: "l \<in> set (levels s)" and x: "x \<in> set (Limit.Orders (limits s l))"
      using wf_bookD(6) [OF wf, of x l] Some by auto
    have wf2: "wf_book ?s2"
      using wf_DeleteOrder [OF sc wf l x] by (simp add: wf_book_index)
    have lev2: "levels ?s2 = levels s" "side_limits b (ob ?s2) = side_limits b (ob s)" for b
      by (simp_all add: levels_def upd_ob_def DeleteOrder_frame side_limits_def)
    have oth: "l' \<noteq> l \<Longrightarrow> Limit.Orders (limits ?s2 l') = Limit.Orders (limits s l')" for l'
      by (simp add: upd_ob_def DeleteOrder_frame)
    obtain b where b: "l \<in> set (side_limits b (ob s))"
      using l by (auto simp: levels_sides)
    then have bx: "Order.Bid (orders s x) = b" using wf_bookD(7) [OF wf _ x] by blast
    show ?thesis
    proof (cases "Limit.Orders (limits ?s2 l) = []")
      case True
      have st: "state_of (CancelOrder srt x s) = clearLimit b l ?s2"
        using True by (simp add: CancelOrder_Some [OF Some] Let_def bx)
      have "wf_book (clearLimit b l ?s2)"
        using wf2 _ True by (rule wf_clearLimit) (simp add: lev2 b)
      moreover have "no_empty_level s \<Longrightarrow> no_empty_level (clearLimit b l ?s2)"
        unfolding no_empty_level_def
      proof
        fix l' assume a: "\<forall>l\<in>set (levels s). Limit.Orders (limits s l) \<noteq> []"
          "l' \<in> set (levels (clearLimit b l ?s2))"
        then have "l' \<in> set (levels s)" "l' \<noteq> l"
          using levels_clearLimit(1) [OF wf_bookD(1) [OF wf2], of l b] b by (auto simp: lev2)
        then show "Limit.Orders (limits (clearLimit b l ?s2) l') \<noteq> []"
          using a(1) oth [of l'] by (simp add: clearLimit_frame)
      qed
      ultimately show ?thesis by (simp add: st)
    next
      case False
      have st: "state_of (CancelOrder srt x s) = ?s2"
        using False by (simp add: CancelOrder_Some [OF Some] Let_def)
      have "no_empty_level s \<Longrightarrow> no_empty_level ?s2"
        unfolding no_empty_level_def lev2
      proof
        fix l' assume a: "\<forall>l\<in>set (levels s). Limit.Orders (limits s l) \<noteq> []" "l' \<in> set (levels s)"
        show "Limit.Orders (limits ?s2 l') \<noteq> []"
          using a False oth [of l'] by (cases "l' = l") auto
      qed
      then show ?thesis using wf2 by (simp add: st)
    qed
  qed
  then show "wf_book (state_of (CancelOrder srt x s))"
    and "no_empty_level s \<Longrightarrow> no_empty_level (state_of (CancelOrder srt x s))"
    by simp_all
qed

subsection \<open>Fill keeps the invariant\<close>

lemma Fill_loop_exhausts:
  assumes "x \<notin> set xs" "distinct xs" "Fill_loop l x xs (s, ms, del) = (s', ms', del')"
    and "\<not> IsFilled (orders s' x)"
  shows "\<forall>r \<in> set xs. Order.Size (orders s' r) = 0"
  using assms
proof (induction xs arbitrary: s ms del)
  case Nil
  then show ?case by simp
next
  case (Cons a xs)
  have nf: "\<not> IsFilled (orders s x)"
    using Cons.prems(3,4) by (auto simp: Fill_loop_filled)
  let ?s2 = "after_fill l a x s"
  have ax: "a \<noteq> x" "x \<notin> set xs" "a \<notin> set xs" "distinct xs" using Cons.prems by auto
  from Cons.prems nf obtain ms2 del2 where run:
    "Fill_loop l x xs (?s2, ms2, del2) = (s', ms', del')"
    by (simp add: Fill_loop_Cons del: Fill_loop.simps)
  have "\<not> IsFilled (orders ?s2 x)"
    using Fill_loop_stays_filled [OF run] Cons.prems(4) by auto
  then have "Order.Size (orders ?s2 a) = 0"
    using ax(1) by (auto simp: after_fill_simps filled_size_def min_def IsFilled_def split: if_splits)
  moreover have "orders s' a = orders ?s2 a"
    using Fill_loop_frame [OF ax(2) run] ax by simp
  ultimately show ?case
    using Cons.IH [OF ax(2) ax(4) run Cons.prems(4)] by simp
qed

lemma wf_Fill_loop:
  assumes wf: "wf_book s" and l: "l \<in> set (levels s)" and x: "Order.Limit (orders s x) = None"
    and run: "Fill_loop l x (Limit.Orders (limits s l)) (s, ms, del) = (s', ms', del')"
  shows "wf_book s'"
proof -
  let ?xs = "Limit.Orders (limits s l)"
  have xn: "x \<notin> set ?xs" by (rule wf_not_resident [OF wf x l])
  have dx: "distinct ?xs" by (rule wf_bookD(3) [OF wf l])
  note fr = Fill_loop_frame [OF xn run]
  note fl = Fill_loop_fields [OF xn run]
  note vol = Fill_loop_volume [OF xn dx run]
  have lev: "levels s' = levels s" "side_limits b (ob s') = side_limits b (ob s)"
    "side_map b (ob s') = side_map b (ob s)" for b
    using fr by (simp_all add: levels_def)
  have ord: "Limit.Orders (limits s' l') = Limit.Orders (limits s l')" for l'
    using fr by (cases "l' = l") auto
  have pr: "Limit.Price (limits s' l') = Limit.Price (limits s l')" for l'
    using fr by (cases "l' = l") auto
  have rv: "TotalVolume (limits s' l') = resident_volume s' l'" if a: "l' \<in> set (levels s)" for l'
  proof (cases "l' = l")
    case True
    then show ?thesis
      using vol wf_bookD(4) [OF wf l] by (simp add: resident_volume_def ord)
  next
    case False
    have "r \<in> set (Limit.Orders (limits s l')) \<Longrightarrow> orders s' r = orders s r" for r
      using fr wf_resident_unique [OF wf a l, of r] wf_not_resident [OF wf x a] False by auto
    then have "resident_volume s' l' = resident_volume s l'"
      by (intro resident_volume_cong) (simp_all add: ord)
    then show ?thesis using wf_bookD(4) [OF wf a] fr False by simp
  qed
  show ?thesis
  proof (rule wf_bookI)
    show "distinct (levels s')" using wf_bookD(1) [OF wf] by (simp add: lev)
  next
    fix l' assume "l' \<in> set (levels s')"
    then show "l' < next_limit s'" using wf_bookD(2) [OF wf, of l'] fr by (simp add: lev)
  next
    fix l' assume "l' \<in> set (levels s')"
    then show "distinct (Limit.Orders (limits s' l'))"
      using wf_bookD(3) [OF wf, of l'] by (simp add: lev ord)
  next
    fix l' assume a: "l' \<in> set (levels s')"
    then show "TotalVolume (limits s' l') = resident_volume s' l'"
      using rv by (simp add: lev)
  next
    fix b p l'
    show "side_map b (ob s') p = Some l' \<longleftrightarrow>
        l' \<in> set (side_limits b (ob s')) \<and> Limit.Price (limits s' l') = p"
      using wf_bookD(5) [OF wf, of b p l'] by (simp add: lev pr)
  next
    fix r l'
    show "Order.Limit (orders s' r) = Some l' \<longleftrightarrow>
        l' \<in> set (levels s') \<and> r \<in> set (Limit.Orders (limits s' l'))"
      using wf_bookD(6) [OF wf, of r l'] by (simp add: lev ord fl)
  next
    fix b l' r
    assume a: "l' \<in> set (side_limits b (ob s'))" "r \<in> set (Limit.Orders (limits s' l'))"
    then show "Order.Bid (orders s' r) = b"
      using wf_bookD(7) [OF wf, of l' b r] by (simp add: lev ord fl)
  next
    fix r assume "next_order s' \<le> r"
    then show "Order.Limit (orders s' r) = None"
      using wf_bookD(8) [OF wf, of r] fr by (simp add: fl)
  qed
qed

lemma wf_delete_all:
  assumes sc: "sort_contract srt" and wf: "wf_book s" and l: "l \<in> set (levels s)"
    and del: "distinct del" "set del \<subseteq> set (Limit.Orders (limits s l))"
  shows "wf_book (delete_all srt l del s)"
  using wf l del
proof (induction del arbitrary: s)
  case Nil
  then show ?case by (simp add: delete_all_simps)
next
  case (Cons y del)
  let ?s1 = "DeleteOrder srt l y s"
  have y: "y \<in> set (Limit.Orders (limits s l))" using Cons.prems by simp
  have wf1: "wf_book ?s1" by (rule wf_DeleteOrder [OF sc Cons.prems(1,2) y])
  have l1: "l \<in> set (levels ?s1)" using Cons.prems(2) by (simp add: levels_def DeleteOrder_frame)
  have "set del \<subseteq> set (Limit.Orders (limits ?s1 l))"
    using DeleteOrder_set(1) [OF sc wf_bookD(3) [OF Cons.prems(1,2)], of y] Cons.prems(3,4) by auto
  then show ?case
    using Cons.IH [OF wf1 l1] Cons.prems(3) by (simp add: delete_all_simps)
qed

lemma Fill_props:
  assumes sc: "sort_contract srt" and wf: "wf_book s" and l: "l \<in> set (levels s)"
    and x: "Order.Limit (orders s x) = None" and run: "Fill srt l x s = (s', ms)"
  shows "wf_book s'"
    and "ob s' = ob s"
    and "l' \<noteq> l \<Longrightarrow> limits s' l' = limits s l'"
    and "Limit.Price (limits s' l') = Limit.Price (limits s l')"
    and "Order.Limit (orders s' x) = None"
    and "\<not> IsFilled (orders s' x) \<Longrightarrow> Limit.Orders (limits s' l) = []"
    and "Order.Size (orders s' x) - TotalVolume (limits s' l)
          = Order.Size (orders s x) - TotalVolume (limits s l)"
    and "m \<in> set ms \<Longrightarrow> Match.Price m = Limit.Price (limits s l)"
    and "0 \<le> Order.Size (orders s x) \<Longrightarrow> 0 \<le> Order.Size (orders s' x)"
    and "ms \<noteq> [] \<Longrightarrow> \<not> IsFilled (orders s x)"
proof -
  let ?xs = "Limit.Orders (limits s l)"
  obtain s1 del where loop: "Fill_loop l x ?xs (s, [], []) = (s1, ms, del)"
    and s': "s' = delete_all srt l del s1"
    using run by (auto simp: Fill_eq split: prod.splits)
  have xn: "x \<notin> set ?xs" by (rule wf_not_resident [OF wf x l])
  have dx: "distinct ?xs" by (rule wf_bookD(3) [OF wf l])
  note fr = Fill_loop_frame [OF xn loop]
  note fl = Fill_loop_fields [OF xn loop]
  note vol = Fill_loop_volume [OF xn dx loop]
  from Fill_loop_matches [OF xn dx loop]
  have m: "\<forall>m \<in> set ms. Match.Price m = Limit.Price (limits s l)"
    "ms = [] \<longleftrightarrow> ?xs = [] \<or> IsFilled (orders s x)"
    "\<not> IsFilled (orders s1 x) \<longrightarrow> length ms = length ?xs"
    "del = filter (\<lambda>r. Order.Size (orders s1 r) = 0) (take (length ms) ?xs)"
    by auto
  have wf1: "wf_book s1" by (rule wf_Fill_loop [OF wf l x loop])
  have l1: "l \<in> set (levels s1)" using l fr by (simp add: levels_def)
  have del: "distinct del" "set del \<subseteq> set (Limit.Orders (limits s1 l))" "x \<notin> set del"
    "\<forall>r \<in> set del. Order.Size (orders s1 r) = 0"
    using dx xn fr by (auto simp: m(4) dest: in_set_takeD)
  show "wf_book s'" unfolding s' by (rule wf_delete_all [OF sc wf1 l1 del(1,2)])
  show "ob s' = ob s" using fr by (simp add: s' delete_all_frame)
  show "l' \<noteq> l \<Longrightarrow> limits s' l' = limits s l'" using fr by (simp add: s' delete_all_frame)
  show "Limit.Price (limits s' l') = Limit.Price (limits s l')"
    using fr by (cases "l' = l") (simp_all add: s' delete_all_frame)
  show "Order.Limit (orders s' x) = None" using x fl(3) [of x] by (simp add: s' delete_all_orders)
  have sx: "Order.Size (orders s' x) = Order.Size (orders s1 x)"
    using del(3) by (simp add: s' delete_all_orders)
  show "Limit.Orders (limits s' l) = []" if nf: "\<not> IsFilled (orders s' x)"
  proof -
    have nf1: "\<not> IsFilled (orders s1 x)" using nf sx by (simp add: IsFilled_def)
    then have "\<forall>r \<in> set ?xs. Order.Size (orders s1 r) = 0"
      by (rule Fill_loop_exhausts [OF xn dx loop])
    moreover have "length ms = length ?xs" using nf1 m(3) by simp
    ultimately have "del = ?xs" by (simp add: m(4))
    then have "mset (Limit.Orders (limits s' l)) = {#}"
      using delete_all_Orders [OF sc wf_bookD(3) [OF wf1 l1], of del] fr by (simp add: s')
    then show ?thesis by simp
  qed
  have "(\<Sum>r\<leftarrow>del. Order.Size (orders s1 r)) = 0"
    using del(4) by (induction del) simp_all
  then show "Order.Size (orders s' x) - TotalVolume (limits s' l)
          = Order.Size (orders s x) - TotalVolume (limits s l)"
    using vol sx by (simp add: s' delete_all_volume)
  show "m \<in> set ms \<Longrightarrow> Match.Price m = Limit.Price (limits s l)" using m(1) by simp
  show "0 \<le> Order.Size (orders s x) \<Longrightarrow> 0 \<le> Order.Size (orders s' x)"
    using Fill_loop_nonneg [OF xn loop, of x] sx by simp
  show "ms \<noteq> [] \<Longrightarrow> \<not> IsFilled (orders s x)" using m(2) by simp
qed

subsection \<open>Sorting a side\<close>

lemma wf_book_perm:
  assumes wf: "wf_book s"
    and eq: "orders s' = orders s" "limits s' = limits s"
      "next_order s' = next_order s" "next_limit s' = next_limit s"
    and perm: "\<And>b. mset (side_limits b (ob s')) = mset (side_limits b (ob s))"
    and maps: "\<And>b. side_map b (ob s') = side_map b (ob s)"
  shows "wf_book s'" and "set (levels s') = set (levels s)"
proof -
  have sl: "set (side_limits b (ob s')) = set (side_limits b (ob s))" for b
    using perm [of b] by (rule mset_eq_setD)
  have "mset (levels s') = mset (levels s)"
    using perm [of True] perm [of False] by (simp add: levels_def side_limits_def)
  then have dl: "distinct (levels s') = distinct (levels s)" and lev: "set (levels s') = set (levels s)"
    by (rule mset_eq_imp_distinct_iff, rule mset_eq_setD)
  have rv: "resident_volume s' l = resident_volume s l" for l
    by (rule resident_volume_same) (rule eq)+
  show "set (levels s') = set (levels s)" by (rule lev)
  show "wf_book s'"
  proof (rule wf_bookI)
    show "distinct (levels s')" using wf_bookD(1) [OF wf] by (simp add: dl)
  next
    fix l assume "l \<in> set (levels s')"
    then show "l < next_limit s'" using wf_bookD(2) [OF wf, of l] by (simp add: lev eq)
  next
    fix l assume "l \<in> set (levels s')"
    then show "distinct (Limit.Orders (limits s' l))" using wf_bookD(3) [OF wf, of l] by (simp add: lev eq)
  next
    fix l assume "l \<in> set (levels s')"
    then show "TotalVolume (limits s' l) = resident_volume s' l"
      using wf_bookD(4) [OF wf, of l] by (simp add: lev eq rv)
  next
    fix b p l
    show "side_map b (ob s') p = Some l \<longleftrightarrow>
        l \<in> set (side_limits b (ob s')) \<and> Limit.Price (limits s' l) = p"
      using wf_bookD(5) [OF wf, of b p l] by (simp add: sl maps eq)
  next
    fix r l
    show "Order.Limit (orders s' r) = Some l \<longleftrightarrow>
        l \<in> set (levels s') \<and> r \<in> set (Limit.Orders (limits s' l))"
      using wf_bookD(6) [OF wf, of r l] by (simp add: lev eq)
  next
    fix b l r
    assume "l \<in> set (side_limits b (ob s'))" "r \<in> set (Limit.Orders (limits s' l))"
    then show "Order.Bid (orders s' r) = b"
      using wf_bookD(7) [OF wf, of l b r] by (simp add: sl eq)
  next
    fix r assume "next_order s' \<le> r"
    then show "Order.Limit (orders s' r) = None"
      using wf_bookD(8) [OF wf, of r] by (simp add: eq)
  qed
qed

text \<open>\<open>Asks\<close> and \<open>Bids\<close> in one: the side \<open>bid\<close> sorted by matching priority.\<close>

lemma sorted_side:
  assumes sc: "sort_contract srt"
    and sd: "(if bid then Bids srt s else Asks srt s) = (s1, arr)"
  shows "orders s1 = orders s" "limits s1 = limits s" "next_order s1 = next_order s"
    "next_limit s1 = next_limit s" "Trades (ob s1) = Trades (ob s)"
    "side_limits bid (ob s1) = arr" "side_limits (\<not> bid) (ob s1) = side_limits (\<not> bid) (ob s)"
    "side_map b (ob s1) = side_map b (ob s)"
    "mset arr = mset (side_limits bid (ob s))"
    "sorted (map (priority bid s) arr)"
proof -
  show "orders s1 = orders s" "limits s1 = limits s" "next_order s1 = next_order s"
    "next_limit s1 = next_limit s" "Trades (ob s1) = Trades (ob s)"
    "side_limits bid (ob s1) = arr" "side_limits (\<not> bid) (ob s1) = side_limits (\<not> bid) (ob s)"
    "side_map b (ob s1) = side_map b (ob s)"
    using sd by (auto simp: Asks_def Bids_def upd_ob_def Let_def side_limits_def side_map_def
        split: if_splits)
  show "mset arr = mset (side_limits bid (ob s))"
    using sd srt_mset [OF sc, of "\<lambda>l. Limit.Price (limits s l)" "asks (ob s)"]
      srt_desc(1) [OF sc, of "\<lambda>l. Limit.Price (limits s l)" "bids (ob s)"]
    by (auto simp: Asks_def Bids_def Let_def side_limits_def split: if_splits)
  show "sorted (map (priority bid s) arr)"
    using sd srt_sorted [OF sc, of "\<lambda>l. Limit.Price (limits s l)" "asks (ob s)"]
      srt_desc(2) [OF sc, of "\<lambda>l. Limit.Price (limits s l)" "bids (ob s)"]
    by (auto simp: Asks_def Bids_def Let_def priority_def [abs_def] split: if_splits)
qed

lemma sum_list_update_one:
  fixes f g :: "'a \<Rightarrow> real"
  assumes "distinct xs" "l \<in> set xs" "\<And>l'. l' \<in> set xs \<Longrightarrow> l' \<noteq> l \<Longrightarrow> g l' = f l'"
  shows "(\<Sum>l'\<leftarrow>xs. g l') = (\<Sum>l'\<leftarrow>xs. f l') - f l + g l"
  using assms
proof (induction xs)
  case Nil
  then show ?case by simp
next
  case (Cons a xs)
  show ?case
  proof (cases "a = l")
    case True
    then have "l \<notin> set xs" using Cons.prems(1) by simp
    then have "(\<Sum>l'\<leftarrow>xs. g l') = (\<Sum>l'\<leftarrow>xs. f l')"
      using Cons.prems(3) by (intro arg_cong [where f = sum_list] map_cong) auto
    then show ?thesis using True by simp
  next
    case False
    then have "l \<in> set xs" "g a = f a" using Cons.prems by auto
    then show ?thesis using Cons.IH Cons.prems by simp
  qed
qed

lemma total_volume_sum:
  "BidTotalVolume s = side_volume True s" "AskTotalVolume s = side_volume False s"
proof -
  have "foldl (\<lambda>totalVolume l. totalVolume + f l) a xs = a + (\<Sum>l\<leftarrow>xs. f l)"
    for f :: "nat \<Rightarrow> real" and a xs
    by (induction xs arbitrary: a) simp_all
  then show "BidTotalVolume s = side_volume True s" "AskTotalVolume s = side_volume False s"
    by (simp_all add: BidTotalVolume_def AskTotalVolume_def side_volume_def side_limits_def)
qed

subsection \<open>clearLimit during the sweep\<close>

lemma clearLimit_arr_sweep:
  assumes ds: "distinct (side_limits bid (ob s))"
    and le: "length (side_limits bid (ob s)) \<le> length arr"
    and pre: "take (length (side_limits bid (ob s))) arr = side_limits bid (ob s)"
    and i: "i < length arr" and l: "arr ! i \<in> set (side_limits bid (ob s))"
    and di: "distinct (drop i arr)"
    and run: "clearLimit_arr bid (arr ! i) arr s = (arr', s2)"
  shows "s2 = clearLimit bid (arr ! i) s"
    and "length arr' = length arr"
    and "drop (Suc i) arr' = drop (Suc i) arr"
    and "length (side_limits bid (ob s2)) \<le> length arr'"
    and "take (length (side_limits bid (ob s2))) arr' = side_limits bid (ob s2)"
proof -
  let ?side = "side_limits bid (ob s)"
  let ?m = "length ?side"
  let ?l = "arr ! i"
  obtain p where p: "p < ?m" "?side ! p = ?l" using l by (auto simp: in_set_conv_nth)
  have ap: "arr ! p = ?l" using p pre by (metis nth_take)
  have nth: "j < ?m \<Longrightarrow> arr ! j = ?side ! j" for j using pre by (metis nth_take)
  have uniq: "\<forall>j. 0 \<le> j \<and> j < ?m \<and> j \<noteq> p \<longrightarrow> arr ! j \<noteq> ?l"
  proof (intro allI impI)
    fix j assume j: "0 \<le> j \<and> j < ?m \<and> j \<noteq> p"
    then have "?side ! j \<noteq> ?side ! p" using ds p(1) by (simp add: nth_eq_iff_index_eq)
    then show "arr ! j \<noteq> ?l" using nth [of j] j p(2) by simp
  qed
  have loop: "remove_loop 0 ?l arr ?m = (arr[p := arr ! (?m - 1)], ?m - 1)"
    using p ap uniq by (intro remove_loop_found) auto
  have pi: "p \<le> i"
  proof (rule ccontr)
    assume "\<not> p \<le> i"
    then have "i < p" by simp
    have "drop i arr ! (p - i) = arr ! p" "drop i arr ! 0 = arr ! i"
      using \<open>i < p\<close> p le i by simp_all
    moreover have "p - i < length (drop i arr)" "0 < length (drop i arr)"
      using \<open>i < p\<close> p le i by simp_all
    ultimately have "p - i = 0"
      using di ap by (metis nth_eq_iff_index_eq)
    then show False using \<open>i < p\<close> by simp
  qed
  have m0: "0 < ?m" using p(1) by (cases ?side) simp_all
  have side': "take (?m - 1) (arr[p := arr ! (?m - 1)]) = remove_swap ?l ?side"
  proof -
    have "remove_swap ?l ?side = butlast (?side[p := last ?side])"
      using ds p by (rule remove_swap_found)
    moreover have "last ?side = arr ! (?m - 1)"
      using m0 nth [of "?m - 1"] by (simp add: last_conv_nth)
    moreover have "?side[p := arr ! (?m - 1)] = take ?m (arr[p := arr ! (?m - 1)])"
      using pre by (metis take_update_swap)
    moreover have "butlast (take ?m (arr[p := arr ! (?m - 1)])) = take (?m - 1) (arr[p := arr ! (?m - 1)])"
      using le by (simp add: butlast_take)
    ultimately show ?thesis by simp
  qed
  have arr': "arr' = arr[p := arr ! (?m - 1)]"
    and s2: "s2 = clearLimit bid ?l s"
    using run loop side'
    by (auto simp: clearLimit_arr_def clearLimit_eq upd_ob_def side_limits_def Let_def
        split: if_splits)
  show "s2 = clearLimit bid ?l s" by (rule s2)
  show "length arr' = length arr" by (simp add: arr')
  show "drop (Suc i) arr' = drop (Suc i) arr" using pi by (simp add: arr')
  have sl2: "side_limits bid (ob s2) = take (?m - 1) arr'"
    by (simp add: s2 clearLimit_frame side' [symmetric] arr')
  show "length (side_limits bid (ob s2)) \<le> length arr'"
    using le by (simp add: sl2 arr')
  have "?m - 1 < length arr" using le m0 by linarith
  then have "length (take (?m - 1) arr') = ?m - 1" by (simp add: arr')
  then show "take (length (side_limits bid (ob s2))) arr' = side_limits bid (ob s2)"
    by (simp only: sl2 take_take)
qed

subsection \<open>One iteration of the sweep\<close>

lemma sweep_invD:
  assumes "sweep_inv bid x i arr s ms"
  shows "wf_book s" "no_empty_level s" "Order.Limit (orders s x) = None"
    "length (side_limits bid (ob s)) \<le> length arr"
    "take (length (side_limits bid (ob s))) arr = side_limits bid (ob s)"
    "distinct (drop i arr)" "set (drop i arr) \<subseteq> set (side_limits bid (ob s))"
    "sorted (map (priority bid s) (drop i arr))"
    "\<not> IsFilled (orders s x) \<Longrightarrow> set (side_limits bid (ob s)) \<subseteq> set (drop i arr)"
    "sorted (map (match_priority bid) ms)"
    "m \<in> set ms \<Longrightarrow> l \<in> set (side_limits bid (ob s)) \<Longrightarrow> match_priority bid m \<le> priority bid s l"
  using assms unfolding sweep_inv_def by blast+

lemma sweep_step:
  assumes sc: "sort_contract srt" and inv: "sweep_inv bid x i arr s ms" and i: "i < length arr"
    and fill: "Fill srt (arr ! i) x s = (s1, lm)"
    and clr: "(if Limit.Orders (limits s1 (arr ! i)) = [] then clearLimit_arr bid (arr ! i) arr s1
              else (arr, s1)) = (arr', s2)"
  shows "sweep_inv bid x (Suc i) arr' s2 (ms @ lm)"
    and "length arr' = length arr"
    and "Order.Size (orders s2 x) - side_volume bid s2 = Order.Size (orders s x) - side_volume bid s"
    and "0 \<le> Order.Size (orders s x) \<Longrightarrow> 0 \<le> Order.Size (orders s2 x)"
    and "Trades (ob s2) = Trades (ob s)"
proof -
  let ?l = "arr ! i"
  let ?side = "side_limits bid (ob s)"
  note I = sweep_invD [OF inv]
  have dr: "drop i arr = ?l # drop (Suc i) arr" using i by (simp add: Cons_nth_drop_Suc)
  have lside: "?l \<in> set ?side" using I(7) dr by auto
  then have llev: "?l \<in> set (levels s)" by (rule side_in_levels)
  note F = Fill_props [OF sc I(1) llev I(3) fill]
  have ds: "distinct ?side"
    using wf_bookD(1) [OF I(1)] by (cases bid) (auto simp: levels_def side_limits_def)
  have side1: "side_limits b (ob s1) = side_limits b (ob s)" "levels s1 = levels s" for b
    using F(2) by (simp_all add: levels_def)
  have prio1: "priority bid s1 = priority bid s"
    by (intro ext) (simp add: priority_def F(4))
  have rest: "distinct (drop (Suc i) arr)" "?l \<notin> set (drop (Suc i) arr)"
    "set (drop (Suc i) arr) \<subseteq> set ?side" "sorted (map (priority bid s) (drop (Suc i) arr))"
    "\<forall>l' \<in> set (drop (Suc i) arr). priority bid s ?l \<le> priority bid s l'"
    using I(6,7,8) unfolding dr by auto
  have nf: "\<not> IsFilled (orders s1 x) \<Longrightarrow> \<not> IsFilled (orders s x)"
    using Fill_filled [of s x srt ?l] fill by auto
  have lmp: "m \<in> set lm \<Longrightarrow> match_priority bid m = priority bid s ?l" for m
    using F(8) [of m] by (simp add: match_priority_def priority_def)
  have lm_le: "match_priority bid m \<le> priority bid s l'" if "m \<in> set lm" "l' \<in> set ?side" for m l'
  proof -
    have "lm \<noteq> []" using that(1) by auto
    then have "\<not> IsFilled (orders s x)" by (rule F(10))
    then have "l' \<in> set (drop i arr)" using I(9) that(2) by auto
    then have "priority bid s ?l \<le> priority bid s l'" using rest(5) unfolding dr by auto
    then show ?thesis using lmp [OF that(1)] by simp
  qed
  have E': "sorted (map (match_priority bid) (ms @ lm))"
  proof -
    have "sorted (map (match_priority bid) lm)"
      using lmp by (induction lm) (auto simp: )
    moreover have "\<forall>m \<in> set ms. \<forall>m' \<in> set lm. match_priority bid m \<le> match_priority bid m'"
      using I(11) [OF _ lside] lmp by auto
    ultimately show ?thesis using I(10) by (auto simp: sorted_append)
  qed
  have F0: "match_priority bid m \<le> priority bid s l'"
    if "m \<in> set (ms @ lm)" "l' \<in> set ?side" for m l'
    using that I(11) [of m l'] lm_le [of m l'] by auto
  have others: "Limit.Orders (limits s1 l') \<noteq> []" if "l' \<in> set (levels s)" "l' \<noteq> ?l" for l'
    using I(2) that F(3) [of l'] by (simp add: no_empty_level_def)
  have sv1: "side_volume bid s1 = side_volume bid s - TotalVolume (limits s ?l) + TotalVolume (limits s1 ?l)"
    unfolding side_volume_def side1
    using ds lside by (rule sum_list_update_one) (simp add: F(3))
  have main: "sweep_inv bid x (Suc i) arr' s2 (ms @ lm) \<and> length arr' = length arr
      \<and> Order.Size (orders s2 x) - side_volume bid s2 = Order.Size (orders s x) - side_volume bid s
      \<and> (0 \<le> Order.Size (orders s x) \<longrightarrow> 0 \<le> Order.Size (orders s2 x))
      \<and> Trades (ob s2) = Trades (ob s)"
  proof (cases "Limit.Orders (limits s1 ?l) = []")
    case True
    then have run: "clearLimit_arr bid ?l arr s1 = (arr', s2)" using clr by simp
    note C = clearLimit_arr_sweep [where s = s1, unfolded side1, OF ds I(4) I(5) i lside I(6) run]
    have s2: "s2 = clearLimit bid ?l s1" by (rule C(1))
    have wf2: "wf_book s2" unfolding s2
      using F(1) _ True by (rule wf_clearLimit) (simp add: side1 lside)
    have lev2: "set (levels s2) = set (levels s) - {?l}"
      unfolding s2 using levels_clearLimit(1) [OF wf_bookD(1) [OF F(1)], of ?l bid] lside
      by (simp add: side1)
    have side2: "set (side_limits bid (ob s2)) = set ?side - {?l}"
      unfolding s2 using set_remove_swap(1) [OF ds, of ?l] by (simp add: clearLimit_frame side1)
    have st2: "orders s2 = orders s1" "limits s2 = limits s1"
      by (simp_all add: s2 clearLimit_frame)
    have prio2: "priority bid s2 = priority bid s"
      by (intro ext) (simp add: priority_def st2 F(4))
    have ne2: "no_empty_level s2"
      unfolding no_empty_level_def using others by (simp add: lev2 st2)
    have tv0: "TotalVolume (limits s1 ?l) = 0"
      using wf_bookD(4) [OF F(1), of ?l] llev True by (simp add: side1 resident_volume_def)
    have "(\<Sum>l'\<leftarrow>remove_swap ?l ?side. TotalVolume (limits s1 l')) + TotalVolume (limits s1 ?l)
        = (\<Sum>l'\<leftarrow>?side. TotalVolume (limits s1 l'))"
      using mset_remove_swap [OF ds, of ?l] lside by (rule sum_list_mset_remove)
    then have sv2: "side_volume bid s2 = side_volume bid s1 - TotalVolume (limits s1 ?l)"
      by (simp add: side_volume_def s2 clearLimit_frame side1)
    have inv2: "sweep_inv bid x (Suc i) arr' s2 (ms @ lm)"
      unfolding sweep_inv_def
    proof (intro conjI ballI impI)
      show "wf_book s2" by (rule wf2)
      show "no_empty_level s2" by (rule ne2)
      show "Order.Limit (orders s2 x) = None" using F(5) by (simp add: st2)
      show "length (side_limits bid (ob s2)) \<le> length arr'" by (rule C(4))
      show "take (length (side_limits bid (ob s2))) arr' = side_limits bid (ob s2)" by (rule C(5))
      show "distinct (drop (Suc i) arr')" using rest(1) by (simp add: C(3))
      show "set (drop (Suc i) arr') \<subseteq> set (side_limits bid (ob s2))"
        using rest(2,3) by (auto simp: C(3) side2)
      show "sorted (map (priority bid s2) (drop (Suc i) arr'))"
        using rest(4) by (simp add: C(3) prio2)
      show "set (side_limits bid (ob s2)) \<subseteq> set (drop (Suc i) arr')"
        if "\<not> IsFilled (orders s2 x)"
      proof -
        have "\<not> IsFilled (orders s x)" using that nf by (simp add: st2)
        then have "set ?side \<subseteq> set (drop i arr)" by (rule I(9))
        then show ?thesis unfolding dr by (auto simp: C(3) side2)
      qed
      show "sorted (map (match_priority bid) (ms @ lm))" by (rule E')
      show "match_priority bid m \<le> priority bid s2 l'"
        if "m \<in> set (ms @ lm)" "l' \<in> set (side_limits bid (ob s2))" for m l'
        using F0 [of m l'] that by (simp add: prio2 side2)
    qed
    have q: "Order.Size (orders s2 x) - side_volume bid s2 = Order.Size (orders s x) - side_volume bid s"
      using F(7) sv1 sv2 tv0 by (simp add: st2)
    have nn: "0 \<le> Order.Size (orders s x) \<Longrightarrow> 0 \<le> Order.Size (orders s2 x)"
      using F(9) by (simp add: st2)
    have tr: "Trades (ob s2) = Trades (ob s)" by (simp add: s2 clearLimit_frame F(2))
    show ?thesis
      using inv2 C(2) q nn tr by blast
  next
    case False
    then have eq: "arr' = arr" "s2 = s1" using clr by simp_all
    have filled: "IsFilled (orders s1 x)" using F(6) False by blast
    have ne1: "no_empty_level s1"
      unfolding no_empty_level_def side1 using others False by blast
    have inv2: "sweep_inv bid x (Suc i) arr' s2 (ms @ lm)"
      unfolding sweep_inv_def eq
    proof (intro conjI ballI impI)
      show "wf_book s1" by (rule F(1))
      show "no_empty_level s1" by (rule ne1)
      show "Order.Limit (orders s1 x) = None" by (rule F(5))
      show "length (side_limits bid (ob s1)) \<le> length arr" using I(4) by (simp add: side1)
      show "take (length (side_limits bid (ob s1))) arr = side_limits bid (ob s1)"
        using I(5) by (simp add: side1)
      show "distinct (drop (Suc i) arr)" by (rule rest(1))
      show "set (drop (Suc i) arr) \<subseteq> set (side_limits bid (ob s1))"
        using rest(3) by (simp add: side1)
      show "sorted (map (priority bid s1) (drop (Suc i) arr))"
        using rest(4) by (simp add: prio1)
      show "set (side_limits bid (ob s1)) \<subseteq> set (drop (Suc i) arr)"
        if "\<not> IsFilled (orders s1 x)"
        using that filled by simp
      show "sorted (map (match_priority bid) (ms @ lm))" by (rule E')
      show "match_priority bid m \<le> priority bid s1 l'"
        if "m \<in> set (ms @ lm)" "l' \<in> set (side_limits bid (ob s1))" for m l'
        using F0 [of m l'] that by (simp add: prio1 side1)
    qed
    have q: "Order.Size (orders s2 x) - side_volume bid s2 = Order.Size (orders s x) - side_volume bid s"
      using F(7) sv1 by (simp add: eq)
    show ?thesis
      using inv2 q F(9) F(2) by (simp add: eq)
  qed
  from main show "sweep_inv bid x (Suc i) arr' s2 (ms @ lm)"
    and "length arr' = length arr"
    and "Order.Size (orders s2 x) - side_volume bid s2 = Order.Size (orders s x) - side_volume bid s"
    and "0 \<le> Order.Size (orders s x) \<Longrightarrow> 0 \<le> Order.Size (orders s2 x)"
    and "Trades (ob s2) = Trades (ob s)"
    by simp_all
qed

subsection \<open>The whole sweep\<close>

lemma sweep_correct:
  assumes sc: "sort_contract srt"
    and inv: "sweep_inv bid x i arr s ms" and k: "i + k = length arr"
    and run: "sweep srt bid x k i arr (s, ms) = (s', ms')"
  shows "\<exists>arr'. length arr' = length arr \<and> sweep_inv bid x (length arr) arr' s' ms'"
    and "Order.Size (orders s' x) - side_volume bid s' = Order.Size (orders s x) - side_volume bid s"
    and "0 \<le> Order.Size (orders s x) \<Longrightarrow> 0 \<le> Order.Size (orders s' x)"
    and "Trades (ob s') = Trades (ob s)"
proof -
  have "(\<exists>arr'. length arr' = length arr \<and> sweep_inv bid x (length arr) arr' s' ms')
      \<and> Order.Size (orders s' x) - side_volume bid s' = Order.Size (orders s x) - side_volume bid s
      \<and> (0 \<le> Order.Size (orders s x) \<longrightarrow> 0 \<le> Order.Size (orders s' x))
      \<and> Trades (ob s') = Trades (ob s)"
    using inv k run
  proof (induction k arbitrary: i arr s ms)
    case 0
    then show ?case by auto
  next
    case (Suc k)
    have i: "i < length arr" using Suc.prems(2) by simp
    obtain s1 lm where fill: "Fill srt (arr ! i) x s = (s1, lm)" by fastforce
    obtain arr2 s2 where clr:
      "(if Limit.Orders (limits s1 (arr ! i)) = [] then clearLimit_arr bid (arr ! i) arr s1
        else (arr, s1)) = (arr2, s2)"
      by fastforce
    note st = sweep_step [OF sc Suc.prems(1) i fill clr]
    have run2: "sweep srt bid x k (Suc i) arr2 (s2, ms @ lm) = (s', ms')"
      using Suc.prems(3) fill clr by (simp add: Let_def)
    have k2: "Suc i + k = length arr2" using Suc.prems(2) st(2) by simp
    from Suc.IH [OF st(1) k2 run2]
    show ?case using st(2-5) by auto
  qed
  then show "\<exists>arr'. length arr' = length arr \<and> sweep_inv bid x (length arr) arr' s' ms'"
    and "Order.Size (orders s' x) - side_volume bid s' = Order.Size (orders s x) - side_volume bid s"
    and "0 \<le> Order.Size (orders s x) \<Longrightarrow> 0 \<le> Order.Size (orders s' x)"
    and "Trades (ob s') = Trades (ob s)"
    by simp_all
qed

lemma record_trades_frame:
  "orders (record_trades now b k ms s) = orders s"
  "limits (record_trades now b k ms s) = limits s"
  "next_order (record_trades now b k ms s) = next_order s"
  "next_limit (record_trades now b k ms s) = next_limit s"
  "side_limits b' (ob (record_trades now b k ms s)) = side_limits b' (ob s)"
  "side_map b' (ob (record_trades now b k ms s)) = side_map b' (ob s)"
  "levels (record_trades now b k ms s) = levels s"
  by (induction ms arbitrary: k s; simp add: upd_ob_def side_limits_def side_map_def levels_def)+

lemma record_trades_wf:
  "wf_book (record_trades now b k ms s) = wf_book s"
  "no_empty_level (record_trades now b k ms s) = no_empty_level s"
  "side_volume b' (record_trades now b k ms s) = side_volume b' s"
  by (simp_all add: wf_book_def no_empty_level_def side_volume_def resident_volume_def
      record_trades_frame)

text \<open>The part of \<open>PlaceMarketOrder\<close> between the liquidity check and the trades.\<close>

lemma market_sweep:
  assumes sc: "sort_contract srt" and wf: "wf_book s" and ne: "no_empty_level s"
    and x: "Order.Limit (orders s x) = None"
    and sd: "(if bid then Bids srt s else Asks srt s) = (s1, arr)"
    and run: "sweep srt bid x (length arr) 0 arr (s1, []) = (s2, ms)"
  shows "wf_book s2" "no_empty_level s2" "Order.Limit (orders s2 x) = None"
    and "sorted (map (match_priority bid) ms)"
    and "m \<in> set ms \<Longrightarrow> l \<in> set (side_limits bid (ob s2)) \<Longrightarrow>
          match_priority bid m \<le> priority bid s2 l"
    and "0 \<le> Order.Size (orders s x) \<Longrightarrow> Order.Size (orders s x) \<le> side_volume bid s \<Longrightarrow>
          IsFilled (orders s2 x)"
    and "Order.Size (orders s2 x) - side_volume bid s2 = Order.Size (orders s x) - side_volume bid s"
    and "Trades (ob s2) = Trades (ob s)"
proof -
  note S = sorted_side [OF sc sd]
  have perm: "mset (side_limits b (ob s1)) = mset (side_limits b (ob s))" for b
    using S(6,7,9) by (cases "b = bid") auto
  note W = wf_book_perm [OF wf S(1-4) perm S(8)]
  have ne1: "no_empty_level s1" using ne by (simp add: no_empty_level_def W(2) S(2))
  have ds: "distinct arr"
    using wf_bookD(1) [OF W(1)] S(6) by (cases bid) (auto simp: levels_def side_limits_def)
  have prio1: "priority bid s1 = priority bid s" by (intro ext) (simp add: priority_def S(2))
  have sv1: "side_volume bid s1 = side_volume bid s"
  proof -
    have "mset (map (\<lambda>l. TotalVolume (limits s l)) arr)
        = mset (map (\<lambda>l. TotalVolume (limits s l)) (side_limits bid (ob s)))"
      using S(9) by (metis mset_map)
    then have "sum_list (map (\<lambda>l. TotalVolume (limits s l)) arr)
        = sum_list (map (\<lambda>l. TotalVolume (limits s l)) (side_limits bid (ob s)))"
      by (metis sum_mset_sum_list)
    then show ?thesis by (simp add: side_volume_def S(2,6))
  qed
  have inv0: "sweep_inv bid x 0 arr s1 []"
    unfolding sweep_inv_def using W(1) ne1 x ds S(10) by (simp add: S(1,6) prio1)
  note R = sweep_correct [OF sc inv0 _ run, simplified]
  from R(1) obtain arr' where a: "length arr' = length arr"
    and inv: "sweep_inv bid x (length arr) arr' s2 ms" by blast
  note I = sweep_invD [OF inv]
  show "wf_book s2" "no_empty_level s2" "Order.Limit (orders s2 x) = None" by (rule I)+
  show "sorted (map (match_priority bid) ms)" by (rule I(10))
  show "m \<in> set ms \<Longrightarrow> l \<in> set (side_limits bid (ob s2)) \<Longrightarrow>
          match_priority bid m \<le> priority bid s2 l" by (rule I(11))
  show q: "Order.Size (orders s2 x) - side_volume bid s2 = Order.Size (orders s x) - side_volume bid s"
    using R(2) by (simp add: S(1) sv1)
  show "Trades (ob s2) = Trades (ob s)" using R(4) S(5) by simp
  show "IsFilled (orders s2 x)"
    if "0 \<le> Order.Size (orders s x)" "Order.Size (orders s x) \<le> side_volume bid s"
  proof (rule ccontr)
    assume nf: "\<not> IsFilled (orders s2 x)"
    then have "side_limits bid (ob s2) = []" using I(9) a by simp
    then have "side_volume bid s2 = 0" by (simp add: side_volume_def)
    moreover have "0 \<le> Order.Size (orders s2 x)" using R(3) that(1) by (simp add: S(1))
    ultimately have "Order.Size (orders s2 x) = 0" using q that(2) by simp
    then show False using nf by (simp add: IsFilled_def)
  qed
qed

subsection \<open>The volume of the matches\<close>

lemma Fill_loop_sum:
  assumes "x \<notin> set xs" "Fill_loop l x xs (s, ms, del) = (s', ms', del')"
  shows "(\<Sum>m\<leftarrow>ms'. SizeFilled m) = (\<Sum>m\<leftarrow>ms. SizeFilled m) + Order.Size (orders s x) - Order.Size (orders s' x)"
  using assms
proof (induction xs arbitrary: s ms del)
  case Nil
  then show ?case by simp
next
  case (Cons a xs)
  show ?case
  proof (cases "IsFilled (orders s x)")
    case True
    with Cons.prems show ?thesis by simp
  next
    case False
    let ?s2 = "after_fill l a x s"
    let ?m = "\<lparr>Match.Ask = (if Order.Bid (orders s a) then x else a),
                Match.Bid = (if Order.Bid (orders s a) then a else x),
                Match.SizeFilled = filled_size s a x, Match.Price = Limit.Price (limits s l)\<rparr>"
    have ax: "a \<noteq> x" "x \<notin> set xs" using Cons.prems by auto
    from Cons.prems False obtain del2 where run:
      "Fill_loop l x xs (?s2, ms @ [?m], del2) = (s', ms', del')"
      by (simp add: Fill_loop_Cons del: Fill_loop.simps)
    show ?thesis
      using Cons.IH [OF ax(2) run] by (simp add: after_fill_simps)
  qed
qed

lemma Fill_sum:
  assumes wf: "wf_book s" and l: "l \<in> set (levels s)"
    and x: "Order.Limit (orders s x) = None" and run: "Fill srt l x s = (s', ms)"
  shows "(\<Sum>m\<leftarrow>ms. SizeFilled m) = Order.Size (orders s x) - Order.Size (orders s' x)"
proof -
  let ?xs = "Limit.Orders (limits s l)"
  obtain s1 del where loop: "Fill_loop l x ?xs (s, [], []) = (s1, ms, del)"
    and s': "s' = delete_all srt l del s1"
    using run by (auto simp: Fill_eq split: prod.splits)
  have xn: "x \<notin> set ?xs" by (rule wf_not_resident [OF wf x l])
  have "Order.Size (orders s' x) = Order.Size (orders s1 x)"
    by (simp add: s' delete_all_orders)
  then show ?thesis using Fill_loop_sum [OF xn loop] by simp
qed

lemma sweep_sum:
  assumes sc: "sort_contract srt"
    and inv: "sweep_inv bid x i arr s ms" and k: "i + k = length arr"
    and run: "sweep srt bid x k i arr (s, ms) = (s', ms')"
  shows "(\<Sum>m\<leftarrow>ms'. SizeFilled m) = (\<Sum>m\<leftarrow>ms. SizeFilled m) + Order.Size (orders s x) - Order.Size (orders s' x)"
  using inv k run
proof (induction k arbitrary: i arr s ms)
  case 0
  then show ?case by simp
next
  case (Suc k)
  have i: "i < length arr" using Suc.prems(2) by simp
  obtain s1 lm where fill: "Fill srt (arr ! i) x s = (s1, lm)" by fastforce
  obtain arr2 s2 where clr:
    "(if Limit.Orders (limits s1 (arr ! i)) = [] then clearLimit_arr bid (arr ! i) arr s1
      else (arr, s1)) = (arr2, s2)"
    by fastforce
  note st = sweep_step [OF sc Suc.prems(1) i fill clr]
  note I = sweep_invD [OF Suc.prems(1)]
  have "arr ! i \<in> set (drop i arr)" using i by (simp add: Cons_nth_drop_Suc [symmetric])
  then have llev: "arr ! i \<in> set (levels s)" using I(7) side_in_levels by blast
  have "orders s2 = orders s1"
    using clr clearLimit_arr_frame by (auto split: if_splits)
  then have one: "(\<Sum>m\<leftarrow>lm. SizeFilled m) = Order.Size (orders s x) - Order.Size (orders s2 x)"
    using Fill_sum [OF I(1) llev I(3) fill] by simp
  have run2: "sweep srt bid x k (Suc i) arr2 (s2, ms @ lm) = (s', ms')"
    using Suc.prems(3) fill clr by (simp add: Let_def)
  have k2: "Suc i + k = length arr2" using Suc.prems(2) st(2) by simp
  from Suc.IH [OF st(1) k2 run2] one show ?case by simp
qed

subsection \<open>PlaceMarketOrder\<close>

lemma opposite_volume_side:
  "opposite_volume s x = side_volume (\<not> Order.Bid (orders s x)) s"
  by (simp add: opposite_volume_def total_volume_sum)

lemma PlaceMarketOrder_unfold:
  assumes "\<not> Order.Size (orders s x) > opposite_volume s x"
    and "(if \<not> Order.Bid (orders s x) then Bids srt s else Asks srt s) = (s1, arr)"
    and "sweep srt (\<not> Order.Bid (orders s x)) x (length arr) 0 arr (s1, []) = (s2, ms)"
  shows "PlaceMarketOrder srt now x s = finish_market now x (s2, ms)"
  using assms by (auto simp: PlaceMarketOrder_def opposite_volume_def split: if_splits)

lemma finish_market_cases:
  "finish_market now x (s2, ms) =
     (if Trades (ob s2) = [] \<and> ms = []
      then Panic (record_trades now (Order.Bid (orders s2 x)) 0 ms s2) IndexOutOfRange
      else Return (record_trades now (Order.Bid (orders s2 x)) 0 ms s2) ms)"
  by (simp add: finish_market_def Let_def record_trades_Nil)

lemma record_trades_length:
  "length (Trades (ob (record_trades now b k ms s))) = length (Trades (ob s)) + length ms"
  by (induction ms arbitrary: k s) (simp_all add: upd_ob_def)

lemma wf_PlaceMarketOrder:
  assumes sc: "sort_contract srt" and wf: "wf_book s" and ne: "no_empty_level s"
    and x: "Order.Limit (orders s x) = None"
  shows "wf_book (state_of (PlaceMarketOrder srt now x s))"
    and "no_empty_level (state_of (PlaceMarketOrder srt now x s))"
proof -
  have "wf_book (state_of (PlaceMarketOrder srt now x s))
      \<and> no_empty_level (state_of (PlaceMarketOrder srt now x s))"
  proof (cases "Order.Size (orders s x) > opposite_volume s x")
    case True
    then show ?thesis
      using wf ne by (cases "Order.Bid (orders s x)") (simp_all add: PlaceMarketOrder_def opposite_volume_def)
  next
    case False
    let ?bid = "\<not> Order.Bid (orders s x)"
    obtain s1 arr where sd: "(if ?bid then Bids srt s else Asks srt s) = (s1, arr)" by fastforce
    obtain s2 ms where run: "sweep srt ?bid x (length arr) 0 arr (s1, []) = (s2, ms)" by fastforce
    note M = market_sweep [OF sc wf ne x sd run]
    show ?thesis
      unfolding PlaceMarketOrder_unfold [OF False sd run] finish_market_cases
      using M(1,2) by (simp add: record_trades_wf)
  qed
  then show "wf_book (state_of (PlaceMarketOrder srt now x s))"
    and "no_empty_level (state_of (PlaceMarketOrder srt now x s))" by simp_all
qed

subsection \<open>Runs\<close>

lemma wf_step:
  assumes sc: "sort_contract srt" and wf: "wf_book s" and ne: "no_empty_level s"
  shows "wf_book (step srt s c) \<and> no_empty_level (step srt s c)"
proof (cases c)
  case (LimitOp price bid sz userID rnd now)
  obtain s1 x where n: "NewOrder bid sz userID rnd now s = (s1, x)" by fastforce
  note N = wf_NewOrder [OF wf n]
  have "wf_book (PlaceLimitOrder price x s1)" using N by (intro wf_PlaceLimitOrder) simp_all
  moreover have "no_empty_level (PlaceLimitOrder price x s1)"
    using N ne by (intro no_empty_PlaceLimitOrder) simp
  ultimately show ?thesis by (simp add: LimitOp n)
next
  case (MarketOp bid sz userID rnd now clock)
  obtain s1 x where n: "NewOrder bid sz userID rnd now s = (s1, x)" by fastforce
  note N = wf_NewOrder [OF wf n]
  have "wf_book s1" "no_empty_level s1" "Order.Limit (orders s1 x) = None" using N ne by simp_all
  from wf_PlaceMarketOrder [OF sc this] show ?thesis by (simp add: MarketOp n)
next
  case (CancelOp x)
  show ?thesis using wf_CancelOrder [OF sc wf] ne by (simp add: CancelOp)
qed

lemma wf_run:
  assumes "sort_contract srt"
  shows "wf_book (run srt ops) \<and> no_empty_level (run srt ops)"
proof (induction ops rule: rev_induct)
  case Nil
  show ?case using wf_NewOrderbook
    by (simp add: run_def no_empty_level_def levels_def NewOrderbook_def)
next
  case (snoc c ops)
  then show ?case using wf_step [OF assms, of "run srt ops" c] by (simp add: run_def)
qed

subsection \<open>Volume conservation\<close>

lemma distinct_concat_map:
  assumes "distinct ls" "\<And>l. l \<in> set ls \<Longrightarrow> distinct (f l)"
    and "\<And>l l'. l \<in> set ls \<Longrightarrow> l' \<in> set ls \<Longrightarrow> l \<noteq> l' \<Longrightarrow> set (f l) \<inter> set (f l') = {}"
  shows "distinct (concat (map f ls))"
  using assms
proof (induction ls)
  case Nil
  then show ?case by simp
next
  case (Cons a ls)
  have "distinct (concat (map f ls))" using Cons.prems by (intro Cons.IH) auto
  moreover have "distinct (f a)" using Cons.prems(2) by simp
  moreover have "set (f a) \<inter> set (f l) = {}" if "l \<in> set ls" for l
    using Cons.prems(1) that by (intro Cons.prems(3)) auto
  ultimately show ?case by auto
qed

lemma side_volume_residents:
  assumes "wf_book s"
  shows "side_volume bid s = (\<Sum>r\<leftarrow>resident_orders bid s. Order.Size (orders s r))"
proof -
  have "(\<Sum>l\<leftarrow>side_limits bid (ob s). TotalVolume (limits s l))
      = (\<Sum>l\<leftarrow>side_limits bid (ob s). resident_volume s l)"
    using wf_bookD(4) [OF assms] side_in_levels [of _ bid s]
    by (intro arg_cong [where f = sum_list] map_cong) auto
  also have "\<dots> = (\<Sum>r\<leftarrow>resident_orders bid s. Order.Size (orders s r))"
  proof -
    have "(\<Sum>l\<leftarrow>ls. \<Sum>r\<leftarrow>f l. g r) = (\<Sum>r\<leftarrow>concat (map f ls). g r)"
      for ls :: "nat list" and f :: "nat \<Rightarrow> nat list" and g :: "nat \<Rightarrow> real"
      by (induction ls) simp_all
    then show ?thesis by (simp add: resident_orders_def resident_volume_def)
  qed
  finally show ?thesis by (simp add: side_volume_def)
qed

lemma wf_volume_conserved:
  assumes wf: "wf_book s"
  shows "volume_conserved s"
proof -
  have "resident_orders True s @ resident_orders False s
      = concat (map (\<lambda>l. Limit.Orders (limits s l)) (bids (ob s) @ asks (ob s)))"
    by (simp add: resident_orders_def side_limits_def)
  moreover have "distinct (concat (map (\<lambda>l. Limit.Orders (limits s l)) (bids (ob s) @ asks (ob s))))"
  proof (rule distinct_concat_map)
    show "distinct (bids (ob s) @ asks (ob s))"
      using wf_bookD(1) [OF wf] by (auto simp: levels_def)
  next
    fix l assume "l \<in> set (bids (ob s) @ asks (ob s))"
    then show "distinct (Limit.Orders (limits s l))"
      using wf_bookD(3) [OF wf, of l] by (auto simp: levels_def)
  next
    fix l l' assume "l \<in> set (bids (ob s) @ asks (ob s))" "l' \<in> set (bids (ob s) @ asks (ob s))" "l \<noteq> l'"
    then show "set (Limit.Orders (limits s l)) \<inter> set (Limit.Orders (limits s l')) = {}"
      using wf_resident_unique [OF wf, of l l'] by (auto simp: levels_def)
  qed
  ultimately have "distinct (resident_orders True s @ resident_orders False s)" by simp
  moreover have "list_all (\<lambda>l. TotalVolume (limits s l) = resident_volume s l) (levels s)"
    using wf_bookD(4) [OF wf] by (simp add: list_all_iff)
  ultimately show ?thesis
    using side_volume_residents [OF wf] by (simp add: volume_conserved_def total_volume_sum)
qed

section \<open>Volume conservation in exact arithmetic\<close>

text \<open>
  In exact arithmetic the bookkeeping of the volumes is right: after any sequence of limit
  orders, market orders and cancellations on a new book (every placed order freshly built
  by \<open>NewOrder\<close>), \<open>BidTotalVolume\<close> and \<open>AskTotalVolume\<close> are the sums of the
  remaining sizes of the orders resident in the levels of their side, the cached
  \<open>TotalVolume\<close> of every level is the sum of its residents' sizes, and no order is
  resident twice. This is a statement about the functions that do not round; for the
  volumes that the code computes it fails (section \<open>Volumes in binary64 arithmetic\<close>).
\<close>

lemma exact_volume_conservation:
  assumes "sort_contract srt"
  shows "volume_conserved (run srt ops)"
  using wf_run [OF assms, of ops] by (simp add: wf_volume_conserved)

lemma conservation_run:
  "bids (ob (run insertion_sort conservation_ops)) = [0, 1]"
  "asks (ob (run insertion_sort conservation_ops)) = []"
  "Limit.Orders (limits (run insertion_sort conservation_ops) 0) = [1]"
  "Limit.Orders (limits (run insertion_sort conservation_ops) 1) = [2]"
  "map (\<lambda>r. Order.Size (orders (run insertion_sort conservation_ops) r)) [1, 2] = [1, 3]"
  "map (\<lambda>l. TotalVolume (limits (run insertion_sort conservation_ops) l)) [0, 1] = [1, 3]"
  by (simp_all add: conservation_ops_def multi_fill_ops_def eval_defs)

lemma exact_volume_conservation_example:
  "sort_contract insertion_sort
   \<and> volume_conserved (run insertion_sort conservation_ops)
   \<and> resident_orders True (run insertion_sort conservation_ops) = [1, 2]
   \<and> resident_orders False (run insertion_sort conservation_ops) = []
   \<and> BidTotalVolume (run insertion_sort conservation_ops) = 4
   \<and> AskTotalVolume (run insertion_sort conservation_ops) = 0"
  using exact_volume_conservation [OF sort_contract_insertion_sort, of conservation_ops]
    sort_contract_insertion_sort conservation_run
  by (simp add: resident_orders_def side_limits_def BidTotalVolume_def AskTotalVolume_def)

section \<open>Best price first in exact arithmetic\<close>

lemma market_sweep_sum:
  assumes sc: "sort_contract srt" and wf: "wf_book s" and ne: "no_empty_level s"
    and x: "Order.Limit (orders s x) = None"
    and sd: "(if bid then Bids srt s else Asks srt s) = (s1, arr)"
    and run: "sweep srt bid x (length arr) 0 arr (s1, []) = (s2, ms)"
  shows "(\<Sum>m\<leftarrow>ms. SizeFilled m) = Order.Size (orders s x) - Order.Size (orders s2 x)"
proof -
  note S = sorted_side [OF sc sd]
  have perm: "mset (side_limits b (ob s1)) = mset (side_limits b (ob s))" for b
    using S(6,7,9) by (cases "b = bid") auto
  note W = wf_book_perm [OF wf S(1-4) perm S(8)]
  have ne1: "no_empty_level s1" using ne by (simp add: no_empty_level_def W(2) S(2))
  have ds: "distinct arr"
    using wf_bookD(1) [OF W(1)] S(6) by (cases bid) (auto simp: levels_def side_limits_def)
  have prio1: "priority bid s1 = priority bid s" by (intro ext) (simp add: priority_def S(2))
  have inv0: "sweep_inv bid x 0 arr s1 []"
    unfolding sweep_inv_def using W(1) ne1 x ds S(10) by (simp add: S(1,6) prio1)
  show ?thesis
    using sweep_sum [OF sc inv0 _ run] by (simp add: S(1))
qed

lemma sorted_descending:
  "sorted (map (\<lambda>m. - Match.Price m) ms) = sorted (rev (map Match.Price ms))"
  by (simp add: sorted_map sorted_wrt_rev sorted_wrt_map)

lemma market_order_sweep:
  assumes sc: "sort_contract srt" and wf: "wf_book s" and ne: "no_empty_level s"
    and x: "Order.Limit (orders s x) = None"
    and sz: "0 \<le> Order.Size (orders s x)" and liq: "Order.Size (orders s x) \<le> opposite_volume s x"
    and tr: "0 < Order.Size (orders s x) \<or> Trades (ob s) \<noteq> []"
  shows "\<exists>s' ms. PlaceMarketOrder srt now x s = Return s' ms
      \<and> IsFilled (orders s' x)
      \<and> (\<Sum>m\<leftarrow>ms. SizeFilled m) = Order.Size (orders s x)
      \<and> (if Order.Bid (orders s x)
          then sorted (map Match.Price ms)
             \<and> (\<forall>m\<in>set ms. \<forall>l\<in>set (asks (ob s')). Match.Price m \<le> Limit.Price (limits s' l))
          else sorted (rev (map Match.Price ms))
             \<and> (\<forall>m\<in>set ms. \<forall>l\<in>set (bids (ob s')). Limit.Price (limits s' l) \<le> Match.Price m))
      \<and> no_empty_level s' \<and> wf_book s'
      \<and> length (Trades (ob s')) = length (Trades (ob s)) + length ms"
proof -
  let ?bid = "\<not> Order.Bid (orders s x)"
  have nl: "\<not> Order.Size (orders s x) > opposite_volume s x" using liq by simp
  obtain s1 arr where sd: "(if ?bid then Bids srt s else Asks srt s) = (s1, arr)" by fastforce
  obtain s2 ms where run: "sweep srt ?bid x (length arr) 0 arr (s1, []) = (s2, ms)" by fastforce
  note M = market_sweep [OF sc wf ne x sd run]
  have filled: "IsFilled (orders s2 x)"
    using M(6) sz liq by (simp add: opposite_volume_side)
  have sum: "(\<Sum>m\<leftarrow>ms. SizeFilled m) = Order.Size (orders s x)"
    using market_sweep_sum [OF sc wf ne x sd run] filled by (simp add: IsFilled_def)
  have "ms \<noteq> [] \<or> Trades (ob s2) \<noteq> []"
    using tr sum M(8) by auto
  let ?s' = "record_trades now (Order.Bid (orders s2 x)) 0 ms s2"
  have ret: "PlaceMarketOrder srt now x s = Return ?s' ms"
    unfolding PlaceMarketOrder_unfold [OF nl sd run] finish_market_cases
    using \<open>ms \<noteq> [] \<or> Trades (ob s2) \<noteq> []\<close> by auto
  have fr: "orders ?s' = orders s2" "limits ?s' = limits s2"
    "asks (ob ?s') = asks (ob s2)" "bids (ob ?s') = bids (ob s2)"
    using record_trades_frame(5) [of True now _ 0 ms s2] record_trades_frame(5) [of False now _ 0 ms s2]
    by (simp_all add: record_trades_frame side_limits_def)
  have prices: "if Order.Bid (orders s x)
          then sorted (map Match.Price ms)
             \<and> (\<forall>m\<in>set ms. \<forall>l\<in>set (asks (ob ?s')). Match.Price m \<le> Limit.Price (limits ?s' l))
          else sorted (rev (map Match.Price ms))
             \<and> (\<forall>m\<in>set ms. \<forall>l\<in>set (bids (ob ?s')). Limit.Price (limits ?s' l) \<le> Match.Price m)"
  proof (cases "Order.Bid (orders s x)")
    case True
    then have "sorted (map Match.Price ms)"
      using M(4) by (simp add: match_priority_def [abs_def])
    moreover have "Match.Price m \<le> Limit.Price (limits s2 l)"
      if "m \<in> set ms" "l \<in> set (asks (ob s2))" for m l
      using M(5) [of m l] that True by (simp add: match_priority_def priority_def side_limits_def)
    ultimately show ?thesis using True by (simp add: fr)
  next
    case False
    then have "sorted (rev (map Match.Price ms))"
      using M(4) by (simp add: match_priority_def [abs_def] sorted_descending)
    moreover have "Limit.Price (limits s2 l) \<le> Match.Price m"
      if "m \<in> set ms" "l \<in> set (bids (ob s2))" for m l
      using M(5) [of m l] that False by (simp add: match_priority_def priority_def side_limits_def)
    ultimately show ?thesis using False by (simp add: fr)
  qed
  have "IsFilled (orders ?s' x)" using filled by (simp add: fr)
  moreover have "no_empty_level ?s'" "wf_book ?s'" using M(1,2) by (simp_all add: record_trades_wf)
  moreover have "length (Trades (ob ?s')) = length (Trades (ob s)) + length ms"
    by (simp add: record_trades_length M(8))
  ultimately show ?thesis using ret sum prices by blast
qed

subsection \<open>Where every sort agrees\<close>

lemma sorted_perm_unique:
  fixes key :: "nat \<Rightarrow> real"
  assumes "mset ys = mset zs" "sorted (map key ys)" "sorted (map key zs)" "distinct (map key zs)"
  shows "ys = zs"
proof -
  have "mset (map key ys) = mset (map key zs)" using assms(1) by simp
  then have "sort (map key zs) = map key ys" using assms(2) by (rule properties_for_sort)
  moreover have "sort (map key zs) = map key zs"
    using assms(3) by (intro properties_for_sort) simp_all
  ultimately have e: "map key ys = map key zs" by simp
  have "set ys = set zs" using assms(1) by (rule mset_eq_setD)
  moreover have "inj_on key (set zs)" using assms(4) by (simp add: distinct_map)
  ultimately have "inj_on key (set ys \<union> set zs)" by simp
  then show ?thesis using e by (simp add: inj_on_map_eq_map)
qed

lemma srt_unique_desc:
  fixes p :: "nat \<Rightarrow> real"
  assumes sc: "sort_contract srt" and d: "distinct (map p xs)"
  shows "srt (\<lambda>i j. p i > p j) xs = insertion_sort (\<lambda>i j. p i > p j) xs"
proof (rule sorted_perm_unique [where key = "\<lambda>i. - p i"])
  show "mset (srt (\<lambda>i j. p i > p j) xs) = mset (insertion_sort (\<lambda>i j. p i > p j) xs)"
    using srt_desc(1) [OF sc, of p xs] srt_desc(1) [OF sort_contract_insertion_sort, of p xs] by simp
  show "sorted (map (\<lambda>i. - p i) (srt (\<lambda>i j. p i > p j) xs))" by (rule srt_desc(2) [OF sc])
  show "sorted (map (\<lambda>i. - p i) (insertion_sort (\<lambda>i j. p i > p j) xs))"
    by (rule srt_desc(2) [OF sort_contract_insertion_sort])
  have "mset (map p (insertion_sort (\<lambda>i j. p i > p j) xs)) = mset (map p xs)"
    using srt_desc(1) [OF sort_contract_insertion_sort, of p xs] by simp
  then have "distinct (map p (insertion_sort (\<lambda>i j. p i > p j) xs))"
    using d by (metis mset_eq_imp_distinct_iff)
  then show "distinct (map (\<lambda>i. - p i) (insertion_sort (\<lambda>i j. p i > p j) xs))"
    by (simp add: distinct_map inj_on_def)
qed

lemma srt_short:
  fixes t :: "nat \<Rightarrow> int"
  assumes sc: "sort_contract srt" and le: "length xs \<le> 1"
  shows "srt (\<lambda>i j. t i < t j) xs = xs"
proof (cases xs)
  case Nil
  then show ?thesis using srt_int(1) [OF sc, of t xs] by simp
next
  case (Cons a ys)
  then have "xs = [a]" using le by simp
  then show ?thesis using srt_int(1) [OF sc, of t xs] by simp
qed

lemma remove_swap_length: "length (remove_swap y xs) \<le> length xs"
  using remove_loop_le [of 0 y xs "length xs"]
  by (cases "remove_loop 0 y xs (length xs)") (simp add: remove_swap_def)

lemma DeleteOrder_agree:
  assumes sc: "sort_contract srt" and le: "length (Limit.Orders (limits s l)) \<le> 1"
  shows "DeleteOrder srt l y s = DeleteOrder insertion_sort l y s"
    and "length (Limit.Orders (limits (DeleteOrder insertion_sort l y s) l)) \<le> 1"
proof -
  have r: "length (remove_swap y (Limit.Orders (limits s l))) \<le> 1"
    using remove_swap_length [of y "Limit.Orders (limits s l)"] le by simp
  show "DeleteOrder srt l y s = DeleteOrder insertion_sort l y s"
    unfolding DeleteOrder_eq
    by (simp only: srt_short [OF sc r] srt_short [OF sort_contract_insertion_sort r])
  show "length (Limit.Orders (limits (DeleteOrder insertion_sort l y s) l)) \<le> 1"
    using r by (simp add: DeleteOrder_Orders srt_short [OF sort_contract_insertion_sort r])
qed

lemma delete_all_agree:
  assumes sc: "sort_contract srt" and le: "length (Limit.Orders (limits s l)) \<le> 1"
  shows "delete_all srt l del s = delete_all insertion_sort l del s"
  using le
proof (induction del arbitrary: s)
  case Nil
  then show ?case by (simp add: delete_all_simps)
next
  case (Cons y del)
  note A = DeleteOrder_agree [OF sc Cons.prems, of y]
  show ?case
    unfolding delete_all_simps A(1) by (rule Cons.IH [OF A(2)])
qed

lemma Fill_agree:
  assumes sc: "sort_contract srt" and le: "length (Limit.Orders (limits s l)) \<le> 1"
    and x: "x \<notin> set (Limit.Orders (limits s l))"
  shows "Fill srt l x s = Fill insertion_sort l x s"
proof -
  obtain s1 ms del where loop: "Fill_loop l x (Limit.Orders (limits s l)) (s, [], []) = (s1, ms, del)"
    by (metis prod_cases3)
  have "length (Limit.Orders (limits s1 l)) \<le> 1"
    using Fill_loop_frame [OF x loop] le by simp
  then show ?thesis
    by (simp add: Fill_eq loop delete_all_agree [OF sc])
qed

lemma srt_unique_asc:
  fixes p :: "nat \<Rightarrow> real"
  assumes sc: "sort_contract srt" and d: "distinct (map p xs)"
  shows "srt (\<lambda>i j. p i < p j) xs = insertion_sort (\<lambda>i j. p i < p j) xs"
proof (rule sorted_perm_unique [where key = p])
  show "mset (srt (\<lambda>i j. p i < p j) xs) = mset (insertion_sort (\<lambda>i j. p i < p j) xs)"
    using srt_mset [OF sc, of p xs] srt_mset [OF sort_contract_insertion_sort, of p xs] by simp
  show "sorted (map p (srt (\<lambda>i j. p i < p j) xs))" by (rule srt_sorted [OF sc])
  show "sorted (map p (insertion_sort (\<lambda>i j. p i < p j) xs))"
    by (rule srt_sorted [OF sort_contract_insertion_sort])
  have "mset (map p (insertion_sort (\<lambda>i j. p i < p j) xs)) = mset (map p xs)"
    using srt_mset [OF sort_contract_insertion_sort, of p xs] by simp
  then show "distinct (map p (insertion_sort (\<lambda>i j. p i < p j) xs))"
    using d by (metis mset_eq_imp_distinct_iff)
qed

lemma sweep_agree:
  assumes sc: "sort_contract srt" and sh: "short_levels bid x k i arr s"
  shows "sweep srt bid x k i arr (s, ms) = sweep insertion_sort bid x k i arr (s, ms)"
  using sh
proof (induction k arbitrary: i arr s ms)
  case 0
  show ?case by simp
next
  case (Suc k)
  have f: "Fill srt (arr ! i) x s = Fill insertion_sort (arr ! i) x s"
  proof (cases "IsFilled (orders s x)")
    case True
    then show ?thesis by (simp add: Fill_filled)
  next
    case False
    then show ?thesis using Suc.prems by (intro Fill_agree [OF sc]) simp_all
  qed
  obtain s1 lm where fill: "Fill insertion_sort (arr ! i) x s = (s1, lm)" by fastforce
  obtain arr2 s2 where clr:
    "(if Limit.Orders (limits s1 (arr ! i)) = [] then clearLimit_arr bid (arr ! i) arr s1
      else (arr, s1)) = (arr2, s2)"
    by fastforce
  have "short_levels bid x k (Suc i) arr2 s2"
    using Suc.prems fill clr by (simp add: Let_def)
  from Suc.IH [OF this, of "ms @ lm"] show ?case
    using f fill clr by (simp add: Let_def)
qed

lemma PlaceMarketOrder_agree:
  assumes sc: "sort_contract srt"
    and d: "distinct (map (\<lambda>l. Limit.Price (limits s l))
                (side_limits (\<not> Order.Bid (orders s x)) (ob s)))"
    and sh: "case (if Order.Bid (orders s x) then Asks insertion_sort s else Bids insertion_sort s) of
               (s1, arr) \<Rightarrow> short_levels (\<not> Order.Bid (orders s x)) x (length arr) 0 arr s1"
  shows "PlaceMarketOrder srt now x s = PlaceMarketOrder insertion_sort now x s"
proof (cases "Order.Bid (orders s x)")
  case True
  have "Asks srt s = Asks insertion_sort s"
    using srt_unique_asc [OF sc, of "\<lambda>l. Limit.Price (limits s l)" "asks (ob s)"] d True
    by (simp add: Asks_def side_limits_def)
  moreover obtain s1 arr where a: "Asks insertion_sort s = (s1, arr)" by fastforce
  moreover have "sweep srt False x (length arr) 0 arr (s1, []) = sweep insertion_sort False x (length arr) 0 arr (s1, [])"
    using sh True a by (intro sweep_agree [OF sc]) simp
  ultimately show ?thesis using True by (simp add: PlaceMarketOrder_def)
next
  case False
  have "Bids srt s = Bids insertion_sort s"
    using srt_unique_desc [OF sc, of "\<lambda>l. Limit.Price (limits s l)" "bids (ob s)"] d False
    by (simp add: Bids_def side_limits_def)
  moreover obtain s1 arr where a: "Bids insertion_sort s = (s1, arr)" by fastforce
  moreover have "sweep srt True x (length arr) 0 arr (s1, []) = sweep insertion_sort True x (length arr) 0 arr (s1, [])"
    using sh False a by (intro sweep_agree [OF sc]) simp
  ultimately show ?thesis using False by (simp add: PlaceMarketOrder_def)
qed

lemma multi_fill_agree:
  assumes sc: "sort_contract srt"
  shows "PlaceMarketOrder srt now 4 multi_fill_book = PlaceMarketOrder insertion_sort now 4 multi_fill_book"
  by (rule PlaceMarketOrder_agree [OF sc])
    (simp_all add: multi_fill_book_def multi_fill_ops_def eval_defs side_limits_def)

lemma multi_fill_result:
  "\<exists>s'. PlaceMarketOrder insertion_sort now 4 multi_fill_book
       = Return s' [\<lparr>Match.Ask = 4, Match.Bid = 3, Match.SizeFilled = 5, Match.Price = 10000\<rparr>,
                   \<lparr>Match.Ask = 4, Match.Bid = 2, Match.SizeFilled = 5, Match.Price = 9000\<rparr>]
     \<and> BidTotalVolume s' = 5 \<and> bids (ob s') = [0, 1]
     \<and> limits s' 0 = limits multi_fill_book 0
     \<and> orders s' 0 = orders multi_fill_book 0 \<and> orders s' 1 = orders multi_fill_book 1
     \<and> limits s' 0 = \<lparr>Limit.Price = 5000, Limit.Orders = [0, 1], Limit.TotalVolume = 2\<rparr>
     \<and> limits s' 1 = \<lparr>Limit.Price = 9000, Limit.Orders = [2], Limit.TotalVolume = 3\<rparr>
     \<and> Order.Size (orders s' 2) = 3
     \<and> BidLimits (ob s') 10000 = None \<and> BidLimits (ob s') 9000 = Some 1 \<and> BidLimits (ob s') 5000 = Some 0
     \<and> map Trade.Price (Trades (ob s')) = [10000, 9000] \<and> map Trade.Size (Trades (ob s')) = [5, 5]"
  by (simp add: multi_fill_book_def multi_fill_ops_def eval_defs)

text \<open>
  In exact arithmetic, on a well-formed book without empty levels, a market order \<open>x\<close>
  that is not resting, whose size is not negative and is at most the total volume of the
  opposite side (and that is positive, or else finds a trade history that is not empty: see
  claim C10) returns. The order ends filled and the matched sizes add up to its size; the
  prices of the matches ascend for a buy and descend for a sell, and no level left on the
  swept side has a better price than any match; no empty level is left in the book and the
  book is well formed, so that the slices and the price maps hold exactly the levels left;
  one trade is recorded for each match. This is a statement about the functions that do
  not round; with the sizes that the code computes the order can be left unfilled (section
  \<open>Volumes in binary64 arithmetic\<close>).

  With bids of size 1 and 1 at 5000, 8 at 9000 and 5 at 10000, a market ask of size 10
  returns exactly two matches, 5 at 10000 and then 5 at 9000; the bid volume is 5
  afterwards and two bid levels are left, the level at 5000 as it was and the level at 9000
  with 3 remaining. This holds for every \<open>sort.Sort\<close> that meets its contract.
\<close>

lemma exact_market_order_best_price_first:
  assumes sc: "sort_contract srt"
  shows "(wf_book s \<and> no_empty_level s \<and> Order.Limit (orders s x) = None
          \<and> 0 \<le> Order.Size (orders s x) \<and> Order.Size (orders s x) \<le> opposite_volume s x
          \<and> (0 < Order.Size (orders s x) \<or> Trades (ob s) \<noteq> [])
        \<longrightarrow> (\<exists>s' ms. PlaceMarketOrder srt now x s = Return s' ms
              \<and> IsFilled (orders s' x)
              \<and> (\<Sum>m\<leftarrow>ms. SizeFilled m) = Order.Size (orders s x)
              \<and> (if Order.Bid (orders s x)
                  then sorted (map Match.Price ms)
                     \<and> (\<forall>m\<in>set ms. \<forall>l\<in>set (asks (ob s')).
                           Match.Price m \<le> Limit.Price (limits s' l))
                  else sorted (rev (map Match.Price ms))
                     \<and> (\<forall>m\<in>set ms. \<forall>l\<in>set (bids (ob s')).
                           Limit.Price (limits s' l) \<le> Match.Price m))
              \<and> no_empty_level s' \<and> wf_book s'
              \<and> length (Trades (ob s')) = length (Trades (ob s)) + length ms))
     \<and> (\<exists>s'. PlaceMarketOrder srt now 4 multi_fill_book
           = Return s' [\<lparr>Match.Ask = 4, Match.Bid = 3, Match.SizeFilled = 5, Match.Price = 10000\<rparr>,
                       \<lparr>Match.Ask = 4, Match.Bid = 2, Match.SizeFilled = 5, Match.Price = 9000\<rparr>]
         \<and> BidTotalVolume s' = 5 \<and> bids (ob s') = [0, 1]
         \<and> limits s' 0 = limits multi_fill_book 0
         \<and> orders s' 0 = orders multi_fill_book 0 \<and> orders s' 1 = orders multi_fill_book 1
         \<and> limits s' 0 = \<lparr>Limit.Price = 5000, Limit.Orders = [0, 1], Limit.TotalVolume = 2\<rparr>
         \<and> limits s' 1 = \<lparr>Limit.Price = 9000, Limit.Orders = [2], Limit.TotalVolume = 3\<rparr>
         \<and> Order.Size (orders s' 2) = 3
         \<and> BidLimits (ob s') 10000 = None \<and> BidLimits (ob s') 9000 = Some 1
         \<and> BidLimits (ob s') 5000 = Some 0
         \<and> map Trade.Price (Trades (ob s')) = [10000, 9000]
         \<and> map Trade.Size (Trades (ob s')) = [5, 5])"
proof (intro conjI impI)
  assume a: "wf_book s \<and> no_empty_level s \<and> Order.Limit (orders s x) = None
          \<and> 0 \<le> Order.Size (orders s x) \<and> Order.Size (orders s x) \<le> opposite_volume s x
          \<and> (0 < Order.Size (orders s x) \<or> Trades (ob s) \<noteq> [])"
  then have "wf_book s" "no_empty_level s" "Order.Limit (orders s x) = None"
    "0 \<le> Order.Size (orders s x)" "Order.Size (orders s x) \<le> opposite_volume s x"
    "0 < Order.Size (orders s x) \<or> Trades (ob s) \<noteq> []"
    by simp_all
  then show "\<exists>s' ms. PlaceMarketOrder srt now x s = Return s' ms
              \<and> IsFilled (orders s' x)
              \<and> (\<Sum>m\<leftarrow>ms. SizeFilled m) = Order.Size (orders s x)
              \<and> (if Order.Bid (orders s x)
                  then sorted (map Match.Price ms)
                     \<and> (\<forall>m\<in>set ms. \<forall>l\<in>set (asks (ob s')).
                           Match.Price m \<le> Limit.Price (limits s' l))
                  else sorted (rev (map Match.Price ms))
                     \<and> (\<forall>m\<in>set ms. \<forall>l\<in>set (bids (ob s')).
                           Limit.Price (limits s' l) \<le> Match.Price m))
              \<and> no_empty_level s' \<and> wf_book s'
              \<and> length (Trades (ob s')) = length (Trades (ob s)) + length ms"
    by (rule market_order_sweep [OF sc])
next
  show "\<exists>s'. PlaceMarketOrder srt now 4 multi_fill_book
           = Return s' [\<lparr>Match.Ask = 4, Match.Bid = 3, Match.SizeFilled = 5, Match.Price = 10000\<rparr>,
                       \<lparr>Match.Ask = 4, Match.Bid = 2, Match.SizeFilled = 5, Match.Price = 9000\<rparr>]
         \<and> BidTotalVolume s' = 5 \<and> bids (ob s') = [0, 1]
         \<and> limits s' 0 = limits multi_fill_book 0
         \<and> orders s' 0 = orders multi_fill_book 0 \<and> orders s' 1 = orders multi_fill_book 1
         \<and> limits s' 0 = \<lparr>Limit.Price = 5000, Limit.Orders = [0, 1], Limit.TotalVolume = 2\<rparr>
         \<and> limits s' 1 = \<lparr>Limit.Price = 9000, Limit.Orders = [2], Limit.TotalVolume = 3\<rparr>
         \<and> Order.Size (orders s' 2) = 3
         \<and> BidLimits (ob s') 10000 = None \<and> BidLimits (ob s') 9000 = Some 1
         \<and> BidLimits (ob s') 5000 = Some 0
         \<and> map Trade.Price (Trades (ob s')) = [10000, 9000]
         \<and> map Trade.Size (Trades (ob s')) = [5, 5]"
    unfolding multi_fill_agree [OF sc] using multi_fill_result [of now] by simp
qed

lemma multi_fill_book_wf:
  "wf_book multi_fill_book" "no_empty_level multi_fill_book"
  "Order.Limit (orders multi_fill_book 4) = None"
proof -
  obtain s1 x where n: "NewOrder False 10 0 14 5 (run insertion_sort multi_fill_ops) = (s1, x)"
    by fastforce
  have s1: "s1 = multi_fill_book" using n by (simp add: multi_fill_book_def)
  note R = wf_run [OF sort_contract_insertion_sort, of multi_fill_ops]
  note N = wf_NewOrder [OF conjunct1 [OF R] n]
  show "wf_book multi_fill_book" "no_empty_level multi_fill_book" using N R by (simp_all add: s1)
  show "Order.Limit (orders multi_fill_book 4) = None"
    by (simp add: multi_fill_book_def multi_fill_ops_def eval_defs)
qed

lemma exact_market_order_example:
  "sort_contract insertion_sort
   \<and> wf_book multi_fill_book \<and> no_empty_level multi_fill_book
   \<and> Order.Limit (orders multi_fill_book 4) = None
   \<and> 0 \<le> Order.Size (orders multi_fill_book 4)
   \<and> Order.Size (orders multi_fill_book 4) \<le> opposite_volume multi_fill_book 4
   \<and> 0 < Order.Size (orders multi_fill_book 4)
   \<and> (\<exists>s' ms. PlaceMarketOrder insertion_sort (\<lambda>_. 6) 4 multi_fill_book = Return s' ms
        \<and> IsFilled (orders s' 4)
        \<and> (\<Sum>m\<leftarrow>ms. SizeFilled m) = 10
        \<and> sorted (rev (map Match.Price ms))
        \<and> no_empty_level s' \<and> wf_book s'
        \<and> length (Trades (ob s')) = length ms)"
proof -
  have v: "Order.Size (orders multi_fill_book 4) = 10" "opposite_volume multi_fill_book 4 = 15"
    "\<not> Order.Bid (orders multi_fill_book 4)" "Trades (ob multi_fill_book) = []"
    by (simp_all add: opposite_volume_def multi_fill_book_def multi_fill_ops_def eval_defs)
  have h: "wf_book multi_fill_book \<and> no_empty_level multi_fill_book
      \<and> Order.Limit (orders multi_fill_book 4) = None
      \<and> 0 \<le> Order.Size (orders multi_fill_book 4)
      \<and> Order.Size (orders multi_fill_book 4) \<le> opposite_volume multi_fill_book 4
      \<and> (0 < Order.Size (orders multi_fill_book 4) \<or> Trades (ob multi_fill_book) \<noteq> [])"
    using multi_fill_book_wf v by simp
  from exact_market_order_best_price_first [OF sort_contract_insertion_sort,
      of multi_fill_book 4 "\<lambda>_. 6"] h
  obtain s' ms where r: "PlaceMarketOrder insertion_sort (\<lambda>_. 6) 4 multi_fill_book = Return s' ms"
    "IsFilled (orders s' 4)" "(\<Sum>m\<leftarrow>ms. SizeFilled m) = Order.Size (orders multi_fill_book 4)"
    "sorted (rev (map Match.Price ms))" "no_empty_level s'" "wf_book s'"
    "length (Trades (ob s')) = length (Trades (ob multi_fill_book)) + length ms"
    using v(3) by auto
  show ?thesis
    using sort_contract_insertion_sort multi_fill_book_wf v r by auto
qed

section \<open>Volumes in binary64 arithmetic\<close>

subsection \<open>Rounding\<close>

lemma round_even_of_int: "round_even (of_int n) = n"
  by (simp add: round_even_def)

lemma round64_quantum:
  assumes q: "q = 2 powr (of_int e - 52)" and e: "- 1022 \<le> e"
    and lo: "2 ^ 52 * q \<le> \<bar>x\<bar>" and hi: "\<bar>x\<bar> < 2 ^ 53 * q"
  shows "round64 x = of_int (round_even (x / q)) * q"
proof -
  have qpos: "0 < q" using q by simp
  have a: "2 ^ 52 * q = 2 powr (of_int e)"
    unfolding q by (simp add: powr_diff)
  have b: "2 ^ 53 * q = 2 powr (of_int (e + 1))"
    unfolding q by (simp add: powr_diff powr_add)
  have "0 < 2 ^ 52 * q" using qpos by simp
  with lo have x0: "0 < \<bar>x\<bar>" by linarith
  have "\<lfloor>log 2 \<bar>x\<bar>\<rfloor> = e"
    using lo hi a b x0 by (simp add: floor_log_eq_powr_iff)
  then show ?thesis using x0 e q by (simp add: round64_def max_def Let_def)
qed

lemma round64_below:
  assumes "k \<le> 1074" and "2 ^ 52 \<le> \<bar>x\<bar> * 2 ^ k" and "\<bar>x\<bar> * 2 ^ k < 2 ^ 53"
  shows "round64 x = of_int (round_even (x * 2 ^ k)) / 2 ^ k"
proof -
  have q: "(1::real) / 2 ^ k = 2 powr (of_int (52 - int k) - 52)"
    by (simp add: powr_minus powr_realpow field_simps)
  have "round64 x = of_int (round_even (x / (1 / 2 ^ k))) * (1 / 2 ^ k)"
    using assms by (intro round64_quantum [OF q]) (simp_all add: field_simps)
  then show ?thesis by simp
qed

lemma round64_above:
  assumes "2 ^ 52 \<le> \<bar>x\<bar> / 2 ^ k" and "\<bar>x\<bar> / 2 ^ k < 2 ^ 53"
  shows "round64 x = of_int (round_even (x / 2 ^ k)) * 2 ^ k"
proof -
  have q: "(2::real) ^ k = 2 powr (of_int (52 + int k) - 52)"
    by (simp add: powr_realpow)
  show ?thesis
    using assms by (intro round64_quantum [OF q]) (simp_all add: field_simps)
qed

lemma binade_nat:
  "1 \<le> m \<Longrightarrow> m < 2 ^ p \<Longrightarrow> \<exists>k<p. 2 ^ (p - 1) \<le> m * 2 ^ k \<and> m * 2 ^ k < (2::nat) ^ p"
proof (induction p)
  case 0
  then show ?case by simp
next
  case (Suc p)
  show ?case
  proof (cases "m < 2 ^ p")
    case True
    with Suc obtain k where k: "k < p" "2 ^ (p - 1) \<le> m * 2 ^ k" "m * 2 ^ k < 2 ^ p" by blast
    then have "p = Suc (p - 1)" by simp
    then have "(2::nat) ^ p = 2 * 2 ^ (p - 1)" by (metis power_Suc)
    with k have "Suc k < Suc p \<and> 2 ^ (Suc p - 1) \<le> m * 2 ^ Suc k \<and> m * 2 ^ Suc k < 2 ^ Suc p"
      by simp
    then show ?thesis by blast
  next
    case False
    with Suc.prems have "0 < Suc p \<and> 2 ^ (Suc p - 1) \<le> m * 2 ^ 0 \<and> m * 2 ^ 0 < 2 ^ Suc p"
      by simp
    then show ?thesis by blast
  qed
qed

lemma round64_int:
  assumes "x \<in> \<int>" and "\<bar>x\<bar> \<le> 2 ^ 53"
  shows "round64 x = x"
proof -
  from assms(1) obtain n :: int where x: "x = of_int n" by (auto elim: Ints_cases)
  have "real_of_int \<bar>n\<bar> \<le> of_int (2 ^ 53)" using assms(2) x by simp
  then have n: "\<bar>n\<bar> \<le> 2 ^ 53" by (simp only: of_int_le_iff)
  consider "n = 0" | "\<bar>n\<bar> = 2 ^ 53" | "n \<noteq> 0" "\<bar>n\<bar> < 2 ^ 53"
    using n by linarith
  then show ?thesis
  proof cases
    case 1
    then show ?thesis using x by (simp add: round64_def)
  next
    case 2
    then have "n = 2 ^ 53 \<or> n = - (2 ^ 53)" by linarith
    then show ?thesis
      using x by (auto simp: round64_above [where k = 1] round_even_def)
  next
    case 3
    define m where "m = nat \<bar>n\<bar>"
    have m: "1 \<le> m" "m < 2 ^ 53" using 3 by (simp_all add: m_def nat_less_iff)
    from binade_nat [OF m] obtain k where k: "k < 53" "2 ^ 52 \<le> m * 2 ^ k" "m * 2 ^ k < 2 ^ 53"
      by auto
    have ax: "\<bar>x\<bar> = of_nat m" using x by (simp add: m_def)
    have lo: "(2::real) ^ 52 \<le> \<bar>x\<bar> * 2 ^ k"
    proof -
      have "real (2 ^ 52) \<le> real (m * 2 ^ k)" using k(2) by (simp only: of_nat_le_iff)
      then show ?thesis unfolding ax by simp
    qed
    have hi: "\<bar>x\<bar> * 2 ^ k < (2::real) ^ 53"
    proof -
      have "real (m * 2 ^ k) < real (2 ^ 53)" using k(3) by (simp only: of_nat_less_iff)
      then show ?thesis unfolding ax by simp
    qed
    have "x * 2 ^ k = of_int (n * 2 ^ k)" using x by simp
    then have "round_even (x * 2 ^ k) = n * 2 ^ k" by (simp only: round_even_of_int)
    moreover have "round64 x = of_int (round_even (x * 2 ^ k)) / 2 ^ k"
      using k(1) lo hi by (intro round64_below) simp_all
    ultimately show ?thesis using x by simp
  qed
qed

lemma round_even_nonneg: "0 \<le> y \<Longrightarrow> 0 \<le> round_even y"
  by (simp add: round_even_def Let_def)

lemma round64_zero: "round64 0 = 0"
  by (simp add: round64_def)

lemma round64_nonneg:
  assumes "0 \<le> x"
  shows "0 \<le> round64 x"
proof (cases "x = 0")
  case True
  then show ?thesis by (simp add: round64_def)
next
  case False
  define q :: real where "q = 2 powr (of_int (max \<lfloor>log 2 \<bar>x\<bar>\<rfloor> (- 1022)) - 52)"
  have q: "0 < q" by (simp add: q_def)
  have "0 \<le> x / q" using assms q by simp
  then have "0 \<le> round_even (x / q)" by (rule round_even_nonneg)
  then have "0 \<le> of_int (round_even (x / q)) * q" using q by simp
  then show ?thesis using False by (simp add: round64_def Let_def q_def)
qed

text \<open>A sum of two binary64 numbers that lies halfway between two binary64 numbers:
  \<open>2^53 + 1\<close> is rounded down to \<open>2^53\<close>.\<close>

lemma round64_tie: "round64 9007199254740993 = 9007199254740992"
  by (simp add: round64_above [where k = 1] round_even_def)

lemmas eval64_defs = store_defs run64_def NewOrder_def NewOrderbook_def NewLimit_def PlaceLimitOrder64_def
  AddOrder64_def DeleteOrder64_def remove_swap_def remove_loop.simps fillOrder64_def Fill64_def IsFilled_def
  clearLimit_def clearLimit_arr_def Asks_def Bids_def AskTotalVolume64_def BidTotalVolume64_def
  PlaceMarketOrder64_def finish_market_def CancelOrder64_def insertion_sort_def Let_def

subsection \<open>The cached volume drifts\<close>

text \<open>The roundings of the run of \<open>drift_book\<close>: the constant 0.3, \<open>0 + 0.3\<close>,
  \<open>0.3 + 2\<close> (which is rounded down, to the \<open>float64\<close> 2.3), \<open>2.3 - 0.3\<close> (which is
  rounded down, to \<open>2 - 2^-52\<close>), and \<open>0 + (2 - 2^-52)\<close>.\<close>

lemma round64_0_3: "round64 (3 / 10) = 5404319552844595 / 18014398509481984"
  by (simp add: round64_below [where k = 54] round_even_def)

lemma round64_0_3_fix:
  "round64 (5404319552844595 / 18014398509481984) = 5404319552844595 / 18014398509481984"
  by (simp add: round64_below [where k = 54] round_even_def)

lemma round64_2_3:
  "round64 (41433116571808563 / 18014398509481984) = 2589569785738035 / 1125899906842624"
  by (simp add: round64_below [where k = 51] round_even_def)

lemma round64_drift:
  "round64 (36028797018963965 / 18014398509481984) = 9007199254740991 / 4503599627370496"
  by (simp add: round64_below [where k = 52] round_even_def)

lemma round64_drift_fix:
  "round64 (9007199254740991 / 4503599627370496) = 9007199254740991 / 4503599627370496"
  by (simp add: round64_below [where k = 52] round_even_def)

text \<open>
  Claim C2 at a concrete input, in the arithmetic of the code. A bid of size 0.3 and a bid
  of size 2 are placed at the same price and the first one is cancelled. The level then
  holds the second bid alone, whose size is 2, but its cached volume is
  \<open>(0.3 + 2) - 0.3\<close> as \<open>float64\<close> computes it, \<open>2 - 2^-52\<close> (Go prints
  1.9999999999999998), and this is the bid volume that the book reports. Neither equals the
  sum of the residents' sizes.
\<close>

theorem volume_not_conserved_binary64:
  "bids (ob drift_book) = [0] \<and> asks (ob drift_book) = []
   \<and> Limit.Orders (limits drift_book 0) = [1]
   \<and> Order.Size (orders drift_book 1) = 2
   \<and> resident_volume drift_book 0 = 2
   \<and> TotalVolume (limits drift_book 0) = 2 - 1 / 2 ^ 52
   \<and> BidTotalVolume64 drift_book = 2 - 1 / 2 ^ 52
   \<and> \<not> volume_conserved64 drift_book"
  by (simp add: drift_book_def volume_conserved64_def resident_volume_def resident_orders_def
      side_limits_def levels_def eval64_defs round64_int
      round64_0_3 round64_0_3_fix round64_2_3 round64_drift round64_drift_fix)

text \<open>
  The difference is not bounded by the last digit. With bids of size \<open>2^53\<close> and 1 at the
  same price the cached volume is \<open>2^53\<close>, since \<open>2^53 + 1\<close> is rounded to \<open>2^53\<close>; a
  market ask of size \<open>2^53\<close> fills the first bid and leaves the level with a cached volume
  of 0 and a resident of size 1.
\<close>

lemma volume_lost_binary64:
  "bids (ob big_book) = [0] \<and> Limit.Orders (limits big_book 0) = [1]
   \<and> Order.Size (orders big_book 1) = 1
   \<and> TotalVolume (limits big_book 0) = 0
   \<and> BidTotalVolume64 big_book = 0
   \<and> \<not> volume_conserved64 big_book"
  by (simp add: big_book_def volume_conserved64_def resident_volume_def resident_orders_def
      side_limits_def levels_def eval64_defs round64_int round64_tie)

subsection \<open>A market order within the reported volume is left unfilled\<close>

text \<open>The roundings of the run of \<open>dust_order\<close> and of its market order: the constants
  0.1 and 0.2, \<open>0 + 0.1\<close>, \<open>0.1 + 0.2\<close> (which is rounded up, to the \<open>float64\<close> that Go
  prints as 0.30000000000000004), \<open>0 + 0.30000000000000004\<close>, and the two differences of
  the fills, which are exact: \<open>0.30000000000000004 - 0.1\<close> is \<open>0.2 + 2^-55\<close>, and
  \<open>(0.2 + 2^-55) - 0.2\<close> is \<open>2^-55\<close>.\<close>

lemma round64_0_1: "round64 (1 / 10) = 3602879701896397 / 36028797018963968"
  by (simp add: round64_below [where k = 56] round_even_def)

lemma round64_0_2: "round64 (1 / 5) = 3602879701896397 / 18014398509481984"
  by (simp add: round64_below [where k = 55] round_even_def)

lemma round64_0_1_fix:
  "round64 (3602879701896397 / 36028797018963968) = 3602879701896397 / 36028797018963968"
  by (simp add: round64_below [where k = 56] round_even_def)

lemma round64_sum:
  "round64 (10808639105689191 / 36028797018963968) = 1351079888211149 / 4503599627370496"
  by (simp add: round64_below [where k = 54] round_even_def)

lemma round64_sum_fix:
  "round64 (1351079888211149 / 4503599627370496) = 1351079888211149 / 4503599627370496"
  by (simp add: round64_below [where k = 54] round_even_def)

lemma round64_rest:
  "round64 (7205759403792795 / 36028797018963968) = 7205759403792795 / 36028797018963968"
  by (simp add: round64_below [where k = 55] round_even_def)

lemma round64_dust: "round64 (1 / 36028797018963968) = 1 / 36028797018963968"
  by (simp add: round64_below [where k = 107] round_even_def)

text \<open>
  Claim C4 at a concrete input, in the arithmetic of the code. Bids of size 0.1 and 0.2
  rest at one price, and the book reports a bid volume of 0.30000000000000004. A market ask
  of exactly this size passes the liquidity check. \<open>PlaceMarketOrder\<close> returns two
  matches, of 0.1 and of 0.2, and evicts the emptied level from the slice and from the price
  map: no bid is left. The market order is not filled: \<open>2^-55\<close> of its size is left (about
  \<open>2.8e-17\<close>), the excess of the reported volume over the volume that was resting.
\<close>

theorem market_order_not_filled_binary64:
  "BidTotalVolume64 dust_order = 1351079888211149 / 4503599627370496
   \<and> Order.Size (orders dust_order 2) = BidTotalVolume64 dust_order
   \<and> \<not> Order.Size (orders dust_order 2) > BidTotalVolume64 dust_order
   \<and> (case PlaceMarketOrder64 insertion_sort (\<lambda>_. 4) 2 dust_order of
         Panic s' p \<Rightarrow> False
       | Return s' ms \<Rightarrow>
           ms = [\<lparr>Match.Ask = 2, Match.Bid = 0,
                   Match.SizeFilled = 3602879701896397 / 36028797018963968, Match.Price = 100\<rparr>,
                 \<lparr>Match.Ask = 2, Match.Bid = 1,
                   Match.SizeFilled = 3602879701896397 / 18014398509481984, Match.Price = 100\<rparr>]
         \<and> Order.Size (orders s' 2) = 1 / 2 ^ 55
         \<and> \<not> IsFilled (orders s' 2)
         \<and> Order.Size (orders s' 0) = 0 \<and> Order.Size (orders s' 1) = 0
         \<and> bids (ob s') = [] \<and> BidLimits (ob s') 100 = None
         \<and> BidTotalVolume64 s' = 0
         \<and> length (Trades (ob s')) = 2)"
  by (simp add: dust_order_def dust_book_def eval64_defs round64_int
      round64_0_1 round64_0_2 round64_0_1_fix round64_sum round64_sum_fix round64_rest round64_dust)

text \<open>
  The scenario of claim C4 in the arithmetic of the code, where every sum and difference is
  exact: with bids of size 1 and 1 at 5000, 8 at 9000 and 5 at 10000, a market ask of size
  10 returns two matches, 5 at 10000 and then 5 at 9000; the bid volume is 5 afterwards, and
  two bid levels are left, the level at 5000 as it was and the level at 9000 with 3
  remaining.
\<close>

lemma multi_fill_binary64:
  "(case PlaceMarketOrder64 insertion_sort (\<lambda>_. 6) 4 multi_fill_book64 of
      Panic s' p \<Rightarrow> False
    | Return s' ms \<Rightarrow>
        ms = [\<lparr>Match.Ask = 4, Match.Bid = 3, Match.SizeFilled = 5, Match.Price = 10000\<rparr>,
              \<lparr>Match.Ask = 4, Match.Bid = 2, Match.SizeFilled = 5, Match.Price = 9000\<rparr>]
      \<and> IsFilled (orders s' 4)
      \<and> BidTotalVolume64 s' = 5 \<and> bids (ob s') = [0, 1]
      \<and> limits s' 0 = \<lparr>Limit.Price = 5000, Limit.Orders = [0, 1], Limit.TotalVolume = 2\<rparr>
      \<and> limits s' 1 = \<lparr>Limit.Price = 9000, Limit.Orders = [2], Limit.TotalVolume = 3\<rparr>
      \<and> Order.Size (orders s' 2) = 3
      \<and> BidLimits (ob s') 10000 = None \<and> BidLimits (ob s') 9000 = Some 1
      \<and> BidLimits (ob s') 5000 = Some 0)"
  by (simp add: multi_fill_book64_def multi_fill_ops_def eval64_defs round64_int)

section \<open>What does not depend on the rounding\<close>

text \<open>
  The statements proved above for the functions in exact arithmetic that do not rest on
  sums of sizes hold for the functions in binary64 arithmetic, too. Where a statement
  names a difference or a sum, it is the rounded one.
\<close>

subsection \<open>The fill step, the liquidity check, the log line and limit orders\<close>

text \<open>\<open>fillOrder64\<close>: the match has the minimum of the two sizes, both sizes are lowered
  by it (the difference that is not 0 is rounded), one of them becomes 0 and none becomes
  negative.\<close>

lemma fillOrder64_single_step:
  assumes "a \<noteq> b" and "0 \<le> Order.Size (orders s a)" and "0 \<le> Order.Size (orders s b)"
    and "fillOrder64 l a b s = (s', m)"
  shows "SizeFilled m = min (Order.Size (orders s a)) (Order.Size (orders s b))
       \<and> Order.Size (orders s' a) = round64 (Order.Size (orders s a) - SizeFilled m)
       \<and> Order.Size (orders s' b) = round64 (Order.Size (orders s b) - SizeFilled m)
       \<and> (Order.Size (orders s' a) = 0 \<or> Order.Size (orders s' b) = 0)
       \<and> 0 \<le> Order.Size (orders s' a) \<and> 0 \<le> Order.Size (orders s' b)
       \<and> Match.Price m = Limit.Price (limits s l)
       \<and> Match.Bid m = (if Order.Bid (orders s a) then a else b)
       \<and> Match.Ask m = (if Order.Bid (orders s a) then b else a)"
  using assms
  by (auto simp: fillOrder64_def store_defs Let_def round64_zero round64_nonneg split: if_splits)

text \<open>\<open>PlaceMarketOrder64\<close> panics with the state unchanged when the size exceeds the volume
  that the book reports.\<close>

lemma PlaceMarketOrder64_insufficient:
  assumes "Order.Size (orders s x) > (if Order.Bid (orders s x) then AskTotalVolume64 s else BidTotalVolume64 s)"
  shows "PlaceMarketOrder64 srt now x s =
           Panic s (NotEnoughVolume (if Order.Bid (orders s x) then AskTotalVolume64 s else BidTotalVolume64 s)
                      (Order.Size (orders s x)))"
  using assms
  by (cases "Order.Bid (orders s x)") (simp_all add: PlaceMarketOrder64_def)

text \<open>\<open>PlaceMarketOrder64\<close> returns only with a trade history that is not empty, and an
  order of size 0 on a book without trades panics with an index out of range.\<close>

lemma Fill64_filled: "IsFilled (orders s x) \<Longrightarrow> Fill64 srt l x s = (s, [])"
  by (cases "Limit.Orders (limits s l)") (simp_all add: Fill64_def)

lemma sweep64_filled:
  "IsFilled (orders s x) \<Longrightarrow> sweep64 srt bid x k i arr (s, ms) = (s', ms')
     \<Longrightarrow> ms' = ms \<and> Trades (ob s') = Trades (ob s) \<and> orders s' = orders s"
proof (induction k arbitrary: i arr s)
  case 0
  then show ?case by simp
next
  case (Suc k)
  obtain arr2 s2 where c:
    "(if Limit.Orders (limits s (arr ! i)) = [] then clearLimit_arr bid (arr ! i) arr s
      else (arr, s)) = (arr2, s2)"
    by fastforce
  then have f: "orders s2 = orders s \<and> limits s2 = limits s \<and> Trades (ob s2) = Trades (ob s)"
    using clearLimit_arr_frame by (auto split: if_splits)
  from Suc.prems c have "sweep64 srt bid x k (i + 1) arr2 (s2, ms) = (s', ms')"
    by (simp add: Fill64_filled Let_def)
  moreover have "IsFilled (orders s2 x)" using f Suc.prems(1) by simp
  ultimately show ?case using Suc.IH f by metis
qed

lemma PlaceMarketOrder64_needs_trades:
  "(PlaceMarketOrder64 srt now x s = Return s' ms \<longrightarrow> Trades (ob s') \<noteq> [])
   \<and> (Trades (ob s) = [] \<and> Order.Size (orders s x) = 0
        \<and> 0 \<le> (if Order.Bid (orders s x) then AskTotalVolume64 s else BidTotalVolume64 s)
        \<longrightarrow> (\<exists>s''. PlaceMarketOrder64 srt now x s = Panic s'' IndexOutOfRange))"
proof (intro conjI impI)
  assume "PlaceMarketOrder64 srt now x s = Return s' ms"
  then show "Trades (ob s') \<noteq> []"
    by (auto simp: PlaceMarketOrder64_def finish_market_def Let_def split: if_splits prod.splits)
next
  assume a: "Trades (ob s) = [] \<and> Order.Size (orders s x) = 0
     \<and> 0 \<le> (if Order.Bid (orders s x) then AskTotalVolume64 s else BidTotalVolume64 s)"
  define side where "side = (if Order.Bid (orders s x) then Asks srt s else Bids srt s)"
  obtain s1 arr where sd: "side = (s1, arr)" by fastforce
  then have s1: "orders s1 = orders s" "Trades (ob s1) = Trades (ob s)"
    by (auto simp: side_def Asks_def Bids_def store_defs Let_def split: if_splits)
  obtain s2 ms2 where sw:
    "sweep64 srt (\<not> Order.Bid (orders s x)) x (length arr) 0 arr (s1, []) = (s2, ms2)"
    by fastforce
  have "IsFilled (orders s1 x)" using a s1 by (simp add: IsFilled_def)
  from sweep64_filled [OF this sw] have r: "ms2 = []" "Trades (ob s2) = []"
    using s1 a by simp_all
  have "finish_market now x (s2, ms2) = Panic s2 IndexOutOfRange"
    using r by (simp add: finish_market_def)
  then show "\<exists>s''. PlaceMarketOrder64 srt now x s = Panic s'' IndexOutOfRange"
    using a sd sw by (auto simp: PlaceMarketOrder64_def side_def split: if_splits)
qed

text \<open>\<open>PlaceLimitOrder64\<close> matches nothing; the volume of the level becomes the rounded
  sum.\<close>

lemma PlaceLimitOrder64_frame:
  "(let l = target_level price x s; s' = PlaceLimitOrder64 price x s; bid = Order.Bid (orders s x) in
      Trades (ob s') = Trades (ob s)
    \<and> (\<forall>r. r \<noteq> x \<longrightarrow> orders s' r = orders s r)
    \<and> orders s' x = (orders s x)\<lparr>Order.Limit := Some l\<rparr>
    \<and> (\<forall>l'. l' \<noteq> l \<longrightarrow> limits s' l' = limits s l')
    \<and> Orderbook.Orders (ob s') = (Orderbook.Orders (ob s))(Order.ID (orders s x) \<mapsto> x)
    \<and> side_limits (\<not> bid) (ob s') = side_limits (\<not> bid) (ob s)
    \<and> side_map (\<not> bid) (ob s') = side_map (\<not> bid) (ob s)
    \<and> (side_map bid (ob s) price \<noteq> None \<longrightarrow>
          limits s' l = (limits s l)\<lparr>Limit.Orders := Limit.Orders (limits s l) @ [x],
                                   TotalVolume := round64 (TotalVolume (limits s l) + Order.Size (orders s x))\<rparr>
        \<and> side_limits bid (ob s') = side_limits bid (ob s)
        \<and> side_map bid (ob s') = side_map bid (ob s))
    \<and> (side_map bid (ob s) price = None \<longrightarrow>
          limits s' l = \<lparr>Limit.Price = price, Limit.Orders = [x],
                         Limit.TotalVolume = round64 (Order.Size (orders s x))\<rparr>
        \<and> side_limits bid (ob s') = side_limits bid (ob s) @ [l]
        \<and> side_map bid (ob s') = (side_map bid (ob s))(price \<mapsto> l)))"
  by (auto simp: PlaceLimitOrder64_def target_level_def side_map_def side_limits_def AddOrder64_def
      NewLimit_def store_defs Let_def split: option.splits)

subsection \<open>The concrete books\<close>

text \<open>The books of the concrete statements above are the same in both arithmetics, since
  their sizes are small integers; with them, cancelling twice dereferences nil and
  \<open>DeleteOrder64\<close> of an order that is not resident lowers the cached volume from 4 to
  1.\<close>

lemma books_binary64:
  "run64 insertion_sort [LimitOp 10000 False 4 0 1 1] = one_ask"
  "run64 insertion_sort [LimitOp 10000 False 10 0 1 1, MarketOp True 10 0 2 2 (\<lambda>_. 3)] = filled_book"
  "multi_fill_book64 = multi_fill_book"
  "run64 insertion_sort [LimitOp 100 True 2 0 10 1, LimitOp 100 True 3 0 11 2, LimitOp 100 True 4 0 12 3]
     = run insertion_sort [LimitOp 100 True 2 0 10 1, LimitOp 100 True 3 0 11 2, LimitOp 100 True 4 0 12 3]"
  by (simp_all add: one_ask_def filled_book_def multi_fill_book64_def multi_fill_book_def multi_fill_ops_def
       eval_defs eval64_defs round64_int)

lemma not_resident_binary64:
  "CancelOrder64 insertion_sort 0 (state_of (CancelOrder64 insertion_sort 0 one_ask))
       = Panic (state_of (CancelOrder64 insertion_sort 0 one_ask)) NilPointerDereference"
  "TotalVolume (limits (DeleteOrder64 insertion_sort 0 1 one_ask_stranger) 0) = 1"
  "Limit.Orders (limits (DeleteOrder64 insertion_sort 0 1 one_ask_stranger) 0) = [0]"
  "Order.Size (orders (DeleteOrder64 insertion_sort 0 1 one_ask_stranger) 0) = 4"
  by (simp_all add: one_ask_stranger_def one_ask_def eval_defs eval64_defs round64_int)

subsection \<open>Closed forms in binary64 arithmetic\<close>

lemma DeleteOrder64_eq:
  "DeleteOrder64 srt l y s =
     s\<lparr>orders := (orders s)(y := (orders s y)\<lparr>Order.Limit := None\<rparr>),
       limits := (limits s)(l := (limits s l)
         \<lparr>TotalVolume := round64 (TotalVolume (limits s l) - Order.Size (orders s y)),
          Limit.Orders := srt (\<lambda>i j. Order.Timestamp (orders s i) < Order.Timestamp (orders s j))
                              (remove_swap y (Limit.Orders (limits s l)))\<rparr>)\<rparr>"
proof -
  have "(\<lambda>i j. Order.Timestamp (if i = y then (orders s y)\<lparr>Order.Limit := None\<rparr> else orders s i)
            < Order.Timestamp (if j = y then (orders s y)\<lparr>Order.Limit := None\<rparr> else orders s j))
      = (\<lambda>i j. Order.Timestamp (orders s i) < Order.Timestamp (orders s j))"
    by (intro ext) simp
  then show ?thesis
    by (simp add: DeleteOrder64_def store_defs Let_def fun_upd_def cong: if_cong)
qed

lemma fillOrder64_eq:
  assumes "a \<noteq> x"
  shows "fillOrder64 l a x s =
    (s\<lparr>orders := (orders s)
          (a := (orders s a)\<lparr>Order.Size := round64 (Order.Size (orders s a) - filled_size s a x)\<rparr>,
           x := (orders s x)\<lparr>Order.Size := round64 (Order.Size (orders s x) - filled_size s a x)\<rparr>)\<rparr>,
     \<lparr>Match.Ask = (if Order.Bid (orders s a) then x else a),
      Match.Bid = (if Order.Bid (orders s a) then a else x),
      Match.SizeFilled = filled_size s a x, Match.Price = Limit.Price (limits s l)\<rparr>)"
  using assms
  by (auto simp: fillOrder64_def filled_size_def store_defs Let_def min_def fun_upd_twist round64_zero)

lemma Fill_loop64_Cons:
  assumes "a \<noteq> x" "\<not> IsFilled (orders s x)"
  shows "Fill_loop64 l x (a # rest) (s, ms, del) =
     Fill_loop64 l x rest
       (after_fill64 l a x s,
        ms @ [\<lparr>Match.Ask = (if Order.Bid (orders s a) then x else a),
                Match.Bid = (if Order.Bid (orders s a) then a else x),
                Match.SizeFilled = filled_size s a x, Match.Price = Limit.Price (limits s l)\<rparr>],
        if IsFilled (orders (after_fill64 l a x s) a) then del @ [a] else del)"
  using assms
  by (auto simp: fillOrder64_eq after_fill64_def store_defs IsFilled_def filled_size_def min_def)

subsection \<open>The first loop of \<open>Fill64\<close>\<close>

lemma Fill_loop64_filled:
  "IsFilled (orders s x) \<Longrightarrow> Fill_loop64 l x xs (s, ms, del) = (s, ms, del)"
  by (cases xs) simp_all

lemma Fill_loop64_frame:
  assumes "x \<notin> set xs" "Fill_loop64 l x xs (s, ms, del) = (s', ms', del')"
  shows "ob s' = ob s \<and> next_order s' = next_order s \<and> next_limit s' = next_limit s
       \<and> (\<forall>l'. l' \<noteq> l \<longrightarrow> limits s' l' = limits s l')
       \<and> Limit.Orders (limits s' l) = Limit.Orders (limits s l)
       \<and> Limit.Price (limits s' l) = Limit.Price (limits s l)
       \<and> (\<forall>r. r \<notin> set xs \<and> r \<noteq> x \<longrightarrow> orders s' r = orders s r)
       \<and> (\<forall>r. orders s' r = (orders s r)\<lparr>Order.Size := Order.Size (orders s' r)\<rparr>)"
  using assms
proof (induction xs arbitrary: s ms del)
  case Nil
  then show ?case by simp
next
  case (Cons a xs)
  show ?case
  proof (cases "IsFilled (orders s x)")
    case True
    with Cons.prems show ?thesis by simp
  next
    case False
    let ?s2 = "after_fill64 l a x s"
    from Cons.prems False obtain ms2 del2 where
      "Fill_loop64 l x xs (?s2, ms2, del2) = (s', ms', del')"
      by (simp add: Fill_loop64_Cons del: Fill_loop64.simps)
    from Cons.IH [OF _ this] Cons.prems(1)
    have ih: "ob s' = ob ?s2 \<and> next_order s' = next_order ?s2 \<and> next_limit s' = next_limit ?s2
       \<and> (\<forall>l'. l' \<noteq> l \<longrightarrow> limits s' l' = limits ?s2 l')
       \<and> Limit.Orders (limits s' l) = Limit.Orders (limits ?s2 l)
       \<and> Limit.Price (limits s' l) = Limit.Price (limits ?s2 l)
       \<and> (\<forall>r. r \<notin> set xs \<and> r \<noteq> x \<longrightarrow> orders s' r = orders ?s2 r)
       \<and> (\<forall>r. orders s' r = (orders ?s2 r)\<lparr>Order.Size := Order.Size (orders s' r)\<rparr>)"
      by simp
    show ?thesis
    proof (intro conjI allI impI)
      fix r
      show "orders s' r = (orders s r)\<lparr>Order.Size := Order.Size (orders s' r)\<rparr>"
      proof -
        have "orders s' r = (orders ?s2 r)\<lparr>Order.Size := Order.Size (orders s' r)\<rparr>"
          using ih by blast
        also have "\<dots> = (orders s r)\<lparr>Order.Size := Order.Size (orders s' r)\<rparr>"
          by (simp add: after_fill64_def)
        finally show ?thesis .
      qed
    qed (use ih in \<open>auto simp: after_fill64_def\<close>)
  qed
qed

lemma after_fill64_simps:
  "ob (after_fill64 l a x s) = ob s"
  "a \<noteq> x \<Longrightarrow> Order.Size (orders (after_fill64 l a x s) a)
     = round64 (Order.Size (orders s a) - filled_size s a x)"
  "Order.Size (orders (after_fill64 l a x s) x) = round64 (Order.Size (orders s x) - filled_size s a x)"
  "r \<noteq> a \<Longrightarrow> r \<noteq> x \<Longrightarrow> orders (after_fill64 l a x s) r = orders s r"
  "TotalVolume (limits (after_fill64 l a x s) l) = round64 (TotalVolume (limits s l) - filled_size s a x)"
  "Limit.Price (limits (after_fill64 l a x s) l') = Limit.Price (limits s l')"
  by (simp_all add: after_fill64_def)

lemma Fill_loop64_stays_filled:
  assumes "Fill_loop64 l x xs (s, ms, del) = (s', ms', del')" "IsFilled (orders s x)"
  shows "s' = s \<and> ms' = ms \<and> del' = del"
  using assms by (simp add: Fill_loop64_filled)

lemma Fill_loop64_matches:
  assumes "x \<notin> set xs" "distinct xs" "Fill_loop64 l x xs (s, ms, del) = (s', ms', del')"
  shows "\<exists>new. ms' = ms @ new \<and> length new \<le> length xs
       \<and> map (resting_of x) new = take (length new) xs
       \<and> (\<forall>m \<in> set new. Match.Price m = Limit.Price (limits s l))
       \<and> (\<forall>i. Suc i < length new \<longrightarrow> Order.Size (orders s' (xs ! i)) = 0)
       \<and> (new = [] \<longleftrightarrow> xs = [] \<or> IsFilled (orders s x))
       \<and> (\<not> IsFilled (orders s' x) \<longrightarrow> length new = length xs)
       \<and> del' = del @ filter (\<lambda>r. Order.Size (orders s' r) = 0) (take (length new) xs)"
  using assms
proof (induction xs arbitrary: s ms del)
  case Nil
  then show ?case by simp
next
  case (Cons a xs)
  show ?case
  proof (cases "IsFilled (orders s x)")
    case True
    with Cons.prems show ?thesis by simp
  next
    case False
    let ?s2 = "after_fill64 l a x s"
    let ?m = "\<lparr>Match.Ask = (if Order.Bid (orders s a) then x else a),
                Match.Bid = (if Order.Bid (orders s a) then a else x),
                Match.SizeFilled = filled_size s a x, Match.Price = Limit.Price (limits s l)\<rparr>"
    let ?d = "if IsFilled (orders (after_fill64 l a x s) a) then del @ [a] else del"
    have ax: "a \<noteq> x" "x \<notin> set xs" "a \<notin> set xs" "distinct xs" using Cons.prems by auto
    from Cons.prems False have run: "Fill_loop64 l x xs (?s2, ms @ [?m], ?d) = (s', ms', del')"
      by (simp add: Fill_loop64_Cons del: Fill_loop64.simps)
    from Cons.IH [OF ax(2) ax(4) run] obtain new where new:
      "ms' = (ms @ [?m]) @ new" "length new \<le> length xs"
      "map (resting_of x) new = take (length new) xs"
      "\<forall>m \<in> set new. Match.Price m = Limit.Price (limits ?s2 l)"
      "\<forall>i. Suc i < length new \<longrightarrow> Order.Size (orders s' (xs ! i)) = 0"
      "new = [] \<longleftrightarrow> xs = [] \<or> IsFilled (orders ?s2 x)"
      "\<not> IsFilled (orders s' x) \<longrightarrow> length new = length xs"
      "del' = ?d @ filter (\<lambda>r. Order.Size (orders s' r) = 0) (take (length new) xs)"
      by blast
    have a': "orders s' a = orders ?s2 a"
      using Fill_loop64_frame [OF ax(2) run] ax by simp
    have a0: "Order.Size (orders ?s2 a) = 0 \<longleftrightarrow> IsFilled (orders ?s2 a)"
      by (simp add: IsFilled_def)
    have x0: "\<not> IsFilled (orders ?s2 x) \<Longrightarrow> Order.Size (orders ?s2 a) = 0"
      using ax(1) by (auto simp: after_fill64_simps filled_size_def min_def IsFilled_def round64_zero split: if_splits)
    have stay: "\<not> IsFilled (orders s' x) \<Longrightarrow> \<not> IsFilled (orders ?s2 x)"
      using Fill_loop64_stays_filled [OF run] by auto
    have rest: "resting_of x ?m = a"
      using ax(1) by (simp add: resting_of_def)
    show ?thesis
    proof (intro exI [of _ "?m # new"] conjI)
      show "ms' = ms @ ?m # new" using new(1) by simp
      show "length (?m # new) \<le> length (a # xs)" using new(2) by simp
      show "map (resting_of x) (?m # new) = take (length (?m # new)) (a # xs)"
        using new(3) rest by simp
      show "\<forall>m \<in> set (?m # new). Match.Price m = Limit.Price (limits s l)"
        using new(4) by (simp add: after_fill64_simps)
      show "\<forall>i. Suc i < length (?m # new) \<longrightarrow> Order.Size (orders s' ((a # xs) ! i)) = 0"
      proof (intro allI impI)
        fix i assume i: "Suc i < length (?m # new)"
        show "Order.Size (orders s' ((a # xs) ! i)) = 0"
        proof (cases i)
          case 0
          then have "new \<noteq> []" using i by auto
          then have "\<not> IsFilled (orders ?s2 x)" using new(6) by simp
          then show ?thesis using x0 a' 0 by simp
        next
          case (Suc j)
          then show ?thesis using new(5) i by simp
        qed
      qed
      show "(?m # new = []) = (a # xs = [] \<or> IsFilled (orders s x))"
        using False by simp
      show "\<not> IsFilled (orders s' x) \<longrightarrow> length (?m # new) = length (a # xs)"
        using new(7) by simp
      show "del' = del @ filter (\<lambda>r. Order.Size (orders s' r) = 0) (take (length (?m # new)) (a # xs))"
        using new(8) a' a0 by simp
    qed
  qed
qed

subsection \<open>\<open>DeleteOrder64\<close> and the second loop of \<open>Fill64\<close>\<close>

lemma DeleteOrder64_frame:
  "ob (DeleteOrder64 srt l y s) = ob s"
  "next_order (DeleteOrder64 srt l y s) = next_order s"
  "next_limit (DeleteOrder64 srt l y s) = next_limit s"
  "orders (DeleteOrder64 srt l y s) = (orders s)(y := (orders s y)\<lparr>Order.Limit := None\<rparr>)"
  "l' \<noteq> l \<Longrightarrow> limits (DeleteOrder64 srt l y s) l' = limits s l'"
  "Limit.Price (limits (DeleteOrder64 srt l y s) l') = Limit.Price (limits s l')"
  "TotalVolume (limits (DeleteOrder64 srt l y s) l) = round64 (TotalVolume (limits s l) - Order.Size (orders s y))"
  by (simp_all add: DeleteOrder64_eq)

lemma DeleteOrder64_Orders:
  "Limit.Orders (limits (DeleteOrder64 srt l y s) l) =
     srt (\<lambda>i j. Order.Timestamp (orders s i) < Order.Timestamp (orders s j))
         (remove_swap y (Limit.Orders (limits s l)))"
  by (simp add: DeleteOrder64_eq)

lemma DeleteOrder64_mset:
  assumes "sort_contract srt" "distinct (Limit.Orders (limits s l))"
  shows "mset (Limit.Orders (limits (DeleteOrder64 srt l y s) l)) = mset (Limit.Orders (limits s l)) - {#y#}"
  using srt_int(1) [OF assms(1), of "\<lambda>r. Order.Timestamp (orders s r)"] assms(2)
  by (simp add: DeleteOrder64_Orders mset_remove_swap)

lemma DeleteOrder64_sorted:
  assumes "sort_contract srt"
  shows "sorted (map (\<lambda>r. Order.Timestamp (orders (DeleteOrder64 srt l y s) r))
                     (Limit.Orders (limits (DeleteOrder64 srt l y s) l)))"
proof -
  have "(\<lambda>r. Order.Timestamp (orders (DeleteOrder64 srt l y s) r)) = (\<lambda>r. Order.Timestamp (orders s r))"
    by (intro ext) (simp add: DeleteOrder64_frame)
  then show ?thesis
    using srt_int(2) [OF assms, of "\<lambda>r. Order.Timestamp (orders s r)"]
    by (simp add: DeleteOrder64_Orders)
qed

lemma DeleteOrder64_set:
  assumes "sort_contract srt" "distinct (Limit.Orders (limits s l))"
  shows "set (Limit.Orders (limits (DeleteOrder64 srt l y s) l)) = set (Limit.Orders (limits s l)) - {y}"
    and "distinct (Limit.Orders (limits (DeleteOrder64 srt l y s) l))"
proof -
  note m = DeleteOrder64_mset [OF assms, of y]
  have "set_mset (mset (remove1 y (Limit.Orders (limits s l)))) = set (Limit.Orders (limits s l)) - {y}"
    using assms(2) by (simp only: set_mset_mset set_remove1_eq)
  then have "set_mset (mset (Limit.Orders (limits s l)) - {#y#}) = set (Limit.Orders (limits s l)) - {y}"
    by simp
  then show "set (Limit.Orders (limits (DeleteOrder64 srt l y s) l)) = set (Limit.Orders (limits s l)) - {y}"
    unfolding m [symmetric] by simp
  have "mset (Limit.Orders (limits (DeleteOrder64 srt l y s) l)) \<subseteq># mset (Limit.Orders (limits s l))"
    unfolding m by simp
  then show "distinct (Limit.Orders (limits (DeleteOrder64 srt l y s) l))"
    using assms(2) by (rule subset_mset_distinct)
qed

lemma delete_all64_simps:
  "delete_all64 srt l [] s = s"
  "delete_all64 srt l (y # del) s = delete_all64 srt l del (DeleteOrder64 srt l y s)"
  by (simp_all add: delete_all64_def)

lemma delete_all64_ob: "ob (delete_all64 srt l del s) = ob s"
  by (induction del arbitrary: s) (simp_all add: delete_all64_simps DeleteOrder64_frame)

lemma delete_all64_next:
  "next_order (delete_all64 srt l del s) = next_order s \<and> next_limit (delete_all64 srt l del s) = next_limit s"
  by (induction del arbitrary: s) (simp_all add: delete_all64_simps DeleteOrder64_frame)

lemma delete_all64_other: "l' \<noteq> l \<Longrightarrow> limits (delete_all64 srt l del s) l' = limits s l'"
  by (induction del arbitrary: s) (simp_all add: delete_all64_simps DeleteOrder64_frame)

lemma delete_all64_Price: "Limit.Price (limits (delete_all64 srt l del s) l') = Limit.Price (limits s l')"
  by (induction del arbitrary: s) (simp_all add: delete_all64_simps DeleteOrder64_frame)

lemma delete_all64_orders:
  "orders (delete_all64 srt l del s) r =
     (if r \<in> set del then (orders s r)\<lparr>Order.Limit := None\<rparr> else orders s r)"
  by (induction del arbitrary: s) (simp_all add: delete_all64_simps DeleteOrder64_frame)

lemmas delete_all64_frame = delete_all64_ob delete_all64_next delete_all64_other delete_all64_Price

lemma delete_all64_Orders:
  assumes "sort_contract srt" "distinct (Limit.Orders (limits s l))"
  shows "mset (Limit.Orders (limits (delete_all64 srt l del s) l)) = mset (Limit.Orders (limits s l)) - mset del"
  using assms(2)
proof (induction del arbitrary: s)
  case Nil
  then show ?case by (simp add: delete_all64_simps)
next
  case (Cons y del)
  have "distinct (Limit.Orders (limits (DeleteOrder64 srt l y s) l))"
    using DeleteOrder64_set(2) [OF assms(1) Cons.prems] .
  from Cons.IH [OF this] show ?case
    by (simp add: delete_all64_simps DeleteOrder64_mset [OF assms(1) Cons.prems])
qed

lemma delete_all64_sorted:
  assumes "sort_contract srt"
    and "sorted (map (\<lambda>r. Order.Timestamp (orders s r)) (Limit.Orders (limits s l)))"
  shows "sorted (map (\<lambda>r. Order.Timestamp (orders (delete_all64 srt l del s) r))
                     (Limit.Orders (limits (delete_all64 srt l del s) l)))"
  using assms(2)
proof (induction del arbitrary: s)
  case Nil
  then show ?case by (simp add: delete_all64_simps)
next
  case (Cons y del)
  show ?case
    unfolding delete_all64_simps
    by (rule Cons.IH) (rule DeleteOrder64_sorted [OF assms(1)])
qed

subsection \<open>Time priority in binary64 arithmetic\<close>

lemma Fill64_eq:
  "Fill64 srt l x s =
     (case Fill_loop64 l x (Limit.Orders (limits s l)) (s, [], []) of
        (s1, ms, del) \<Rightarrow> (delete_all64 srt l del s1, ms))"
  by (simp add: Fill64_def delete_all64_def)

lemma Fill_loop64_fields:
  assumes "x \<notin> set xs" "Fill_loop64 l x xs (s, ms, del) = (s', ms', del')"
  shows "Order.Timestamp (orders s' r) = Order.Timestamp (orders s r)"
    and "Order.Bid (orders s' r) = Order.Bid (orders s r)"
    and "Order.Limit (orders s' r) = Order.Limit (orders s r)"
    and "Order.ID (orders s' r) = Order.ID (orders s r)"
proof -
  have e: "orders s' r = (orders s r)\<lparr>Order.Size := Order.Size (orders s' r)\<rparr>"
    using Fill_loop64_frame [OF assms] by blast
  show "Order.Timestamp (orders s' r) = Order.Timestamp (orders s r)"
    by (subst e) simp
  show "Order.Bid (orders s' r) = Order.Bid (orders s r)"
    by (subst e) simp
  show "Order.Limit (orders s' r) = Order.Limit (orders s r)"
    by (subst e) simp
  show "Order.ID (orders s' r) = Order.ID (orders s r)"
    by (subst e) simp
qed

text \<open>
  Time priority does not depend on the arithmetic of the sizes: the statement of claim C3
  holds for \<open>Fill64\<close> and \<open>DeleteOrder64\<close> as it holds for \<open>Fill\<close> and
  \<open>DeleteOrder\<close>.
\<close>

lemma Fill64_time_priority:
  assumes "sort_contract srt"
    and "distinct (Limit.Orders (limits s l))" and "x \<notin> set (Limit.Orders (limits s l))"
    and "sorted (map (\<lambda>r. Order.Timestamp (orders s r)) (Limit.Orders (limits s l)))"
    and "Fill64 srt l x s = (s', ms)"
  shows "map (resting_of x) ms = take (length ms) (Limit.Orders (limits s l))
       \<and> sorted (map (\<lambda>m. Order.Timestamp (orders s (resting_of x m))) ms)
       \<and> (\<forall>i. Suc i < length ms \<longrightarrow> Order.Size (orders s' (Limit.Orders (limits s l) ! i)) = 0)
       \<and> sorted (map (\<lambda>r. Order.Timestamp (orders s' r)) (Limit.Orders (limits s' l)))
       \<and> (\<forall>y. sorted (map (\<lambda>r. Order.Timestamp (orders (DeleteOrder64 srt l y s) r))
                          (Limit.Orders (limits (DeleteOrder64 srt l y s) l)))
              \<and> set (Limit.Orders (limits (DeleteOrder64 srt l y s) l))
                  = set (Limit.Orders (limits s l)) - {y})"
proof -
  let ?xs = "Limit.Orders (limits s l)"
  let ?T = "\<lambda>r. Order.Timestamp (orders s r)"
  obtain s1 del where loop: "Fill_loop64 l x ?xs (s, [], []) = (s1, ms, del)"
    and s': "s' = delete_all64 srt l del s1"
    using assms(5) by (auto simp: Fill64_eq split: prod.splits)
  from Fill_loop64_matches [OF assms(3) assms(2) loop]
  have m: "length ms \<le> length ?xs" "map (resting_of x) ms = take (length ms) ?xs"
    "\<forall>i. Suc i < length ms \<longrightarrow> Order.Size (orders s1 (?xs ! i)) = 0"
    by auto
  note fr = Fill_loop64_frame [OF assms(3) loop]
  note ts = Fill_loop64_fields(1) [OF assms(3) loop]
  have "map (\<lambda>m. ?T (resting_of x m)) ms = map ?T (map (resting_of x) ms)"
    by simp
  also have "\<dots> = map ?T (take (length ms) ?xs)"
    by (simp only: m(2))
  also have "\<dots> = take (length ms) (map ?T ?xs)"
    by (simp add: take_map)
  finally have b: "sorted (map (\<lambda>m. ?T (resting_of x m)) ms)"
    using assms(4) by simp
  have c: "\<forall>i. Suc i < length ms \<longrightarrow> Order.Size (orders s' (?xs ! i)) = 0"
    using m(3) by (simp add: s' delete_all64_orders)
  have "sorted (map (\<lambda>r. Order.Timestamp (orders s1 r)) (Limit.Orders (limits s1 l)))"
    using assms(4) fr by (simp add: ts)
  then have d: "sorted (map (\<lambda>r. Order.Timestamp (orders s' r)) (Limit.Orders (limits s' l)))"
    unfolding s' by (rule delete_all64_sorted [OF assms(1)])
  show ?thesis
  proof (intro conjI allI)
    show "map (resting_of x) ms = take (length ms) ?xs" by (rule m(2))
    show "sorted (map (\<lambda>m. ?T (resting_of x m)) ms)" by (rule b)
    show "Suc i < length ms \<longrightarrow> Order.Size (orders s' (?xs ! i)) = 0" for i using c by simp
    show "sorted (map (\<lambda>r. Order.Timestamp (orders s' r)) (Limit.Orders (limits s' l)))" by (rule d)
    show "sorted (map (\<lambda>r. Order.Timestamp (orders (DeleteOrder64 srt l y s) r))
                          (Limit.Orders (limits (DeleteOrder64 srt l y s) l)))" for y
      by (rule DeleteOrder64_sorted [OF assms(1)])
    show "set (Limit.Orders (limits (DeleteOrder64 srt l y s) l)) = set ?xs - {y}" for y
      by (rule DeleteOrder64_set(1) [OF assms(1) assms(2)])
  qed
qed

end
